theory Spec2Isabelle
  imports Main "HOL-Library.Word" "HOL-Library.Signed_Division"
begin

unbundle bit_operations_syntax

section \<open>Memory management of the DLX teaching kernel (os/memory.c)\<close>

subsection \<open>Machine types and the constants of memory.h\<close>

type_synonym uint32 = "32 word"

text \<open>
  The page size is fixed by the source itself: \<^verbatim>\<open>MemoryPageFaultHandler\<close> rounds the
  stack pointer down to its page with the literal \<^verbatim>\<open>0x1FF000\<close>, so a page has
  \<^verbatim>\<open>0x1000\<close> bytes, the offset of an address is its low 12 bits and its page number
  the bits above them.
\<close>

definition MEM_PAGESIZE :: nat where
  "MEM_PAGESIZE = 4096"

definition MEM_ADDR_OFFS_MASK :: uint32 where
  "MEM_ADDR_OFFS_MASK = 0xFFF"

definition MEM_PAGE_OFFSET_MASK :: int where
  "MEM_PAGE_OFFSET_MASK = 0xFFF"

definition MEM_ADDR2PAGE :: "uint32 \<Rightarrow> uint32" where
  "MEM_ADDR2PAGE addr = drop_bit 12 addr"

definition MEM_ADDR2OFFS :: "uint32 \<Rightarrow> uint32" where
  "MEM_ADDR2OFFS addr = addr AND MEM_ADDR_OFFS_MASK"

text \<open>
  The remaining constants of memory.h are used by memory.c but their values do not
  appear in it. They are parameters of the model.
\<close>

record mem_consts =
  MEM_FAIL :: int
  MEM_SUCCESS :: int
  MEM_PTE_VALID :: uint32
  MEM_MASK_PTE2PAGE :: uint32

subsection \<open>Undefined behaviour\<close>

text \<open>
  What C leaves undefined is a value of the model: reading through a null or a
  never-assigned pointer, indexing an array outside its bounds, shifting by the
  width of the operand or more.
\<close>

datatype fault = NullDeref | Uninitialised | OutOfBounds | ShiftRange

subsection \<open>The frame bitmap\<close>

text \<open>
  The file-level variables \<^verbatim>\<open>freemapmax\<close>, \<^verbatim>\<open>freemap[16]\<close>, \<^verbatim>\<open>pagestart\<close>
  and \<^verbatim>\<open>nfreepages\<close>. The two \<^verbatim>\<open>int\<close> counters stay far inside the 32-bit
  range on every path considered here and are modelled as integers.
\<close>

record kmem =
  freemapmax :: int
  freemap :: "uint32 list"
  pagestart :: uint32
  nfreepages :: int

definition negativeone :: uint32 where
  "negativeone = 0xFFFFFFFF"

definition invert :: "uint32 \<Rightarrow> uint32" where
  "invert n = n XOR negativeone"

text \<open>
  \<^verbatim>\<open>MemoryEditFreemap(int page, int val)\<close>: word \<^verbatim>\<open>page / 32\<close>, bit
  \<^verbatim>\<open>page % 32\<close>, both converted to \<^verbatim>\<open>uint32\<close>; C division truncates.
\<close>

definition MemoryEditFreemap :: "kmem \<Rightarrow> int \<Rightarrow> int \<Rightarrow> fault + kmem" where
  "MemoryEditFreemap m page val =
     (let index = (word_of_int (page sdiv 32) :: uint32);
          bit_position = (word_of_int (page smod 32) :: uint32)
      in if unat index \<ge> length (freemap m) then Inl OutOfBounds
         else if unat bit_position \<ge> 32 then Inl ShiftRange
         else Inr (m\<lparr>freemap := (freemap m)[unat index :=
                ((freemap m ! unat index) AND invert (push_bit (unat bit_position) 1))
                  OR push_bit (unat bit_position) (word_of_int val)]\<rparr>))"

text \<open>The scan of \<^verbatim>\<open>MemoryAllocPage\<close> for a non-zero word; it may not return.\<close>

partial_function (option) alloc_scan :: "uint32 list \<Rightarrow> int \<Rightarrow> int \<Rightarrow> (fault + int) option" where
  "alloc_scan fm fmax index =
     (if index < 0 \<or> nat index \<ge> length fm then Some (Inl OutOfBounds)
      else if fm ! nat index = 0
           then alloc_scan fm fmax (if index + 1 \<ge> fmax then 0 else index + 1)
           else Some (Inr index))"

text \<open>The scan for the lowest set bit of the word found.\<close>

partial_function (option) bit_scan :: "uint32 \<Rightarrow> nat \<Rightarrow> (fault + nat) option" where
  "bit_scan fm_segment bit_position =
     (if bit_position \<ge> 32 then Some (Inl ShiftRange)
      else if fm_segment AND push_bit bit_position 1 = 0
           then bit_scan fm_segment (bit_position + 1)
           else Some (Inr bit_position))"

definition MemoryAllocPage :: "'a mem_consts_scheme \<Rightarrow> kmem \<Rightarrow> (fault + int \<times> kmem) option" where
  "MemoryAllocPage K m =
     (if nfreepages m = 0 then Some (Inr (MEM_FAIL K, m))
      else case alloc_scan (freemap m) (freemapmax m) 0 of
             None \<Rightarrow> None
           | Some (Inl e) \<Rightarrow> Some (Inl e)
           | Some (Inr index) \<Rightarrow>
               (case bit_scan (freemap m ! nat index) 0 of
                  None \<Rightarrow> None
                | Some (Inl e) \<Rightarrow> Some (Inl e)
                | Some (Inr bit_position) \<Rightarrow>
                    Some (Inr (index * 32 + int bit_position,
                      m\<lparr>freemap := (freemap m)[nat index :=
                           (freemap m ! nat index) AND invert (push_bit bit_position 1)],
                        nfreepages := nfreepages m - 1\<rparr>))))"

definition MemorySetupPte :: "'a mem_consts_scheme \<Rightarrow> uint32 \<Rightarrow> uint32" where
  "MemorySetupPte K page = (page * word_of_nat MEM_PAGESIZE) OR MEM_PTE_VALID K"

definition MemoryFreePage :: "kmem \<Rightarrow> uint32 \<Rightarrow> fault + kmem" where
  "MemoryFreePage m page =
     (case MemoryEditFreemap m (sint page) 1 of
        Inl e \<Rightarrow> Inl e
      | Inr m' \<Rightarrow> Inr (m'\<lparr>nfreepages := nfreepages m' + 1\<rparr>))"

definition MemoryFreePageTableEntry :: "'a mem_consts_scheme \<Rightarrow> kmem \<Rightarrow> uint32 \<Rightarrow> fault + kmem" where
  "MemoryFreePageTableEntry K m pte =
     MemoryFreePage m ((pte AND MEM_MASK_PTE2PAGE K) div word_of_nat MEM_PAGESIZE)"


text \<open>
  \<^verbatim>\<open>MemoryModuleInit\<close>. Its two inputs are the memory size read from the simulator
  (\<^verbatim>\<open>MemoryGetSize()\<close>) and \<^verbatim>\<open>lastosaddress\<close>. The first assignment to
  \<^verbatim>\<open>nfreepages\<close> is overwritten before it is read and is left out.
\<close>

fun clear_words :: "nat list \<Rightarrow> kmem \<Rightarrow> fault + kmem" where
  "clear_words [] m = Inr m"
| "clear_words (i # is) m =
     (if i \<ge> length (freemap m) then Inl OutOfBounds
      else clear_words is (m\<lparr>freemap := (freemap m)[i := 0]\<rparr>))"

fun mark_free :: "int list \<Rightarrow> kmem \<Rightarrow> fault + kmem" where
  "mark_free [] m = Inr m"
| "mark_free (i # is) m =
     (case MemoryEditFreemap (m\<lparr>nfreepages := nfreepages m + 1\<rparr>) i 1 of
        Inl e \<Rightarrow> Inl e
      | Inr m' \<Rightarrow> mark_free is m')"

definition MemoryModuleInit :: "kmem \<Rightarrow> int \<Rightarrow> int \<Rightarrow> fault + kmem" where
  "MemoryModuleInit m memsize lastosaddress =
     (let maxpage = memsize sdiv int MEM_PAGESIZE;
          ospages = ((word_of_int lastosaddress :: uint32) AND 0x1FFFFC) div word_of_nat MEM_PAGESIZE;
          m1 = m\<lparr>pagestart := ospages + 1, freemapmax := (maxpage + 31) sdiv 32, nfreepages := 0\<rparr>
      in case clear_words [0 ..< nat (freemapmax m1)] m1 of
           Inl e \<Rightarrow> Inl e
         | Inr m2 \<Rightarrow> mark_free [uint (pagestart m2) .. maxpage - 1] m2)"

subsection \<open>Processes\<close>

text \<open>
  A node of the buddy tree. Pointers to nodes are positions in the process's
  \<^verbatim>\<open>heap_array\<close>, \<open>None\<close> for \<^verbatim>\<open>NULL\<close>. The fields \<^verbatim>\<open>size\<close>, \<^verbatim>\<open>order\<close>
  and \<^verbatim>\<open>index\<close> carry a prefix where the plain name is taken in HOL.
\<close>

record node =
  parent :: "nat option"
  left :: "nat option"
  right :: "nat option"
  nsize :: int
  norder :: int
  address :: int
  nindex :: int
  inuse :: int

text \<open>
  The fields of the PCB that memory.c touches. The page table is indexed by page number
  without a bounds check in the source and is a total map here. \<open>saved_stackpointer\<close> and
  \<open>saved_fault\<close> are the entries \<^verbatim>\<open>PROCESS_STACK_USER_STACKPOINTER\<close> and
  \<^verbatim>\<open>PROCESS_STACK_FAULT\<close> of \<^verbatim>\<open>currentSavedFrame\<close>. \<open>heap_array\<close> has
  \<^verbatim>\<open>MEM_NUM_NODES\<close> entries. \<open>killed\<close> records that \<^verbatim>\<open>ProcessKill\<close> ran.
\<close>

record pcb =
  pagetable :: "nat \<Rightarrow> uint32"
  npages :: int
  saved_stackpointer :: uint32
  saved_fault :: uint32
  heap_array :: "node list"
  killed :: bool

text \<open>
  Modelled from the spec: \<^verbatim>\<open>ProcessKill\<close> is defined in process.c, which is not among
  the sources. It is the "process termination primitive, invoked on fatal faults or
  resource exhaustion": it marks the process terminated and returns to its caller, as
  the \<^verbatim>\<open>return MEM_FAIL\<close> that follows its first call in the handler shows.
\<close>

definition ProcessKill :: "pcb \<Rightarrow> pcb" where
  "ProcessKill p = p\<lparr>killed := True\<rparr>"

subsection \<open>Translation and copying between address spaces\<close>

definition MemoryTranslateUserToSystem :: "'a mem_consts_scheme \<Rightarrow> pcb \<Rightarrow> uint32 \<Rightarrow> uint32" where
  "MemoryTranslateUserToSystem K p addr =
     (let page = MEM_ADDR2PAGE addr;
          offset = MEM_ADDR2OFFS addr
      in if pagetable p (unat page) AND MEM_PTE_VALID K \<noteq> 0
         then (pagetable p (unat page) AND MEM_MASK_PTE2PAGE K) OR offset
         else word_of_int (MEM_FAIL K))"

text \<open>Physical memory, byte by byte, and \<^verbatim>\<open>bcopy (src, dst, k)\<close> on it.\<close>

type_synonym physmem = "uint32 \<Rightarrow> 8 word"

definition bcopy :: "physmem \<Rightarrow> uint32 \<Rightarrow> uint32 \<Rightarrow> nat \<Rightarrow> physmem" where
  "bcopy mem src dst k = (\<lambda>a. if unat (a - dst) < k then mem (src + (a - dst)) else mem a)"

text \<open>
  \<^verbatim>\<open>MemoryMoveBetweenSpaces\<close>: the state of the loop is the memory, the two pointers,
  the count \<open>n\<close> still to copy and \<open>bytesCopied\<close>.
\<close>

function move_loop :: "'a mem_consts_scheme \<Rightarrow> pcb \<Rightarrow> int \<Rightarrow> physmem \<Rightarrow> uint32 \<Rightarrow> uint32
    \<Rightarrow> int \<Rightarrow> int \<Rightarrow> int \<times> physmem" where
  "move_loop K p dir mem system user n bytesCopied =
     (if n > 0 then
        (let curUser = MemoryTranslateUserToSystem K p user in
         if curUser = 0 then (bytesCopied, mem)
         else
           (let inpage = int MEM_PAGESIZE - uint (curUser AND MEM_ADDR_OFFS_MASK);
                bytesToCopy = (if inpage > n then n else inpage);
                mem' = (if dir \<ge> 0 then bcopy mem system curUser (nat bytesToCopy)
                        else bcopy mem curUser system (nat bytesToCopy))
            in move_loop K p dir mem' (system + word_of_int bytesToCopy)
                 (user + word_of_int bytesToCopy) (n - bytesToCopy) (bytesCopied + bytesToCopy)))
      else (bytesCopied, mem))"
  by pat_completeness auto
termination
proof (relation "measure (\<lambda>(K, p, dir, mem, system, user, n, bytesCopied). nat n)")
  show "wf (measure (\<lambda>(K, p, dir, mem, system, user, n, bytesCopied). nat n))"
    by simp
next
  fix K :: "'a mem_consts_scheme" and p dir mem system user n bytesCopied
  fix curUser :: uint32 and inpage bytesToCopy :: int and mem' :: physmem
  assume n: "0 < n"
    and i: "inpage = int MEM_PAGESIZE - uint (curUser AND MEM_ADDR_OFFS_MASK)"
    and b: "bytesToCopy = (if n < inpage then n else inpage)"
  have "curUser AND MEM_ADDR_OFFS_MASK \<le> MEM_ADDR_OFFS_MASK"
    by (rule word_and_le1)
  then have "uint (curUser AND MEM_ADDR_OFFS_MASK) \<le> 4095"
    by (simp add: MEM_ADDR_OFFS_MASK_def word_le_def)
  then have "0 < bytesToCopy"
    using n i b by (simp add: MEM_PAGESIZE_def)
  then show "((K, p, dir, mem', system + word_of_int bytesToCopy, user + word_of_int bytesToCopy,
      n - bytesToCopy, bytesCopied + bytesToCopy), K, p, dir, mem, system, user, n, bytesCopied)
      \<in> measure (\<lambda>(K, p, dir, mem, system, user, n, bytesCopied). nat n)"
    using n by simp
qed

declare move_loop.simps [simp del]

definition MemoryMoveBetweenSpaces :: "'a mem_consts_scheme \<Rightarrow> pcb \<Rightarrow> physmem \<Rightarrow> uint32 \<Rightarrow> uint32
    \<Rightarrow> int \<Rightarrow> int \<Rightarrow> int \<times> physmem" where
  "MemoryMoveBetweenSpaces K p mem system user n dir = move_loop K p dir mem system user n 0"

definition MemoryCopySystemToUser :: "'a mem_consts_scheme \<Rightarrow> pcb \<Rightarrow> physmem \<Rightarrow> uint32 \<Rightarrow> uint32
    \<Rightarrow> int \<Rightarrow> int \<times> physmem" where
  "MemoryCopySystemToUser K p mem from to n = MemoryMoveBetweenSpaces K p mem from to n 1"

definition MemoryCopyUserToSystem :: "'a mem_consts_scheme \<Rightarrow> pcb \<Rightarrow> physmem \<Rightarrow> uint32 \<Rightarrow> uint32
    \<Rightarrow> int \<Rightarrow> int \<times> physmem" where
  "MemoryCopyUserToSystem K p mem from to n = MemoryMoveBetweenSpaces K p mem to from n (- 1)"

subsection \<open>The page fault handler\<close>

definition MemoryPageFaultHandler :: "'a mem_consts_scheme \<Rightarrow> kmem \<Rightarrow> pcb
    \<Rightarrow> (fault + int \<times> kmem \<times> pcb) option" where
  "MemoryPageFaultHandler K m p =
     (let user_stack_ptr = saved_stackpointer p AND 0x1FF000;
          fault_addr = saved_fault p;
          pg_fault_addr = MEM_ADDR2PAGE fault_addr
      in if fault_addr < user_stack_ptr then Some (Inr (MEM_FAIL K, m, ProcessKill p))
         else case MemoryAllocPage K m of
                None \<Rightarrow> None
              | Some (Inl e) \<Rightarrow> Some (Inl e)
              | Some (Inr (genPage, m')) \<Rightarrow>
                  (let p1 = (if genPage = MEM_FAIL K then ProcessKill p else p);
                       p2 = p1\<lparr>pagetable := (pagetable p1)
                              (unat pg_fault_addr := MemorySetupPte K (word_of_int genPage))\<rparr>;
                       p3 = p2\<lparr>npages := npages p2 + 1\<rparr>
                   in Some (Inr (MEM_SUCCESS K, m', p3))))"

subsection \<open>The buddy heap\<close>

text \<open>
  The recursive calls follow the \<^verbatim>\<open>left\<close> and \<^verbatim>\<open>right\<close> pointers, which the C
  types do not bound; the first argument is fuel, and \<open>None\<close> means that it ran out.
  The \<^verbatim>\<open>printf\<close> calls, and the reads that only feed them, have no effect on the
  heap and are left out.
\<close>

fun MemoryNodeSearch :: "nat \<Rightarrow> node list \<Rightarrow> nat option \<Rightarrow> int \<Rightarrow> (fault + int \<times> node list) option" where
  "MemoryNodeSearch 0 h nd memsize = None"
| "MemoryNodeSearch (Suc fuel) h None memsize = Some (Inr (- 1, h))"
| "MemoryNodeSearch (Suc fuel) h (Some i) memsize =
     (if i \<ge> length h then Some (Inl OutOfBounds)
      else if left (h ! i) = None \<and> inuse (h ! i) = 0 then
        (if memsize \<le> nsize (h ! i) \<and> memsize > nsize (h ! i) sdiv 2
         then Some (Inr (address (h ! i), h[i := (h ! i)\<lparr>inuse := 1\<rparr>]))
         else Some (Inr (- 1, h)))
      else
        (case MemoryNodeSearch fuel h (left (h ! i)) memsize of
           None \<Rightarrow> None
         | Some (Inl e) \<Rightarrow> Some (Inl e)
         | Some (Inr (temp_node, h1)) \<Rightarrow>
             if temp_node \<ge> 0 then Some (Inr (temp_node, h1))
             else MemoryNodeSearch fuel h1 (right (h1 ! i)) memsize))"

text \<open>
  The two children that \<^verbatim>\<open>MemorySplitNode\<close> creates for node \<open>i\<close>, one assignment
  after the other as in the source, each reading the array as the previous one left it:
  the left child at position \<open>l\<close>, the right child at position \<open>r\<close>, and the two
  pointers of the node. The positions come from the node's \<^verbatim>\<open>index\<close> field.
\<close>

definition create_left :: "node list \<Rightarrow> nat \<Rightarrow> nat \<Rightarrow> node list" where
  "create_left h i l =
     (let h1 = h[l := (h ! l)\<lparr>parent := Some i\<rparr>];
          h2 = h1[l := (h1 ! l)\<lparr>left := None\<rparr>];
          h3 = h2[l := (h2 ! l)\<lparr>right := None\<rparr>];
          h4 = h3[l := (h3 ! l)\<lparr>nsize := nsize (h3 ! i) sdiv 2\<rparr>];
          h5 = h4[l := (h4 ! l)\<lparr>norder := norder (h4 ! i) - 1\<rparr>]
      in h5[l := (h5 ! l)\<lparr>address := address (h5 ! i)\<rparr>])"

definition create_right :: "node list \<Rightarrow> nat \<Rightarrow> nat \<Rightarrow> node list" where
  "create_right h i r =
     (let g1 = h[r := (h ! r)\<lparr>parent := Some i\<rparr>];
          g2 = g1[r := (g1 ! r)\<lparr>left := None\<rparr>];
          g3 = g2[r := (g2 ! r)\<lparr>right := None\<rparr>];
          g4 = g3[r := (g3 ! r)\<lparr>nsize := nsize (g3 ! i) sdiv 2\<rparr>];
          g5 = g4[r := (g4 ! r)\<lparr>norder := norder (g4 ! i) - 1\<rparr>]
      in g5[r := (g5 ! r)\<lparr>address := address (g5 ! i) + nsize (g5 ! r)\<rparr>])"

definition set_children :: "node list \<Rightarrow> nat \<Rightarrow> nat \<Rightarrow> nat \<Rightarrow> node list" where
  "set_children h i l r =
     (let g7 = h[i := (h ! i)\<lparr>left := Some l\<rparr>]
      in g7[i := (g7 ! i)\<lparr>right := Some r\<rparr>])"

definition make_children :: "node list \<Rightarrow> nat \<Rightarrow> fault + node list" where
  "make_children h i =
     (let li = 2 * nindex (h ! i) in
      if li < 0 \<or> nat li \<ge> length h then Inl OutOfBounds
      else
        (let h6 = create_left h i (nat li);
             ri = 2 * nindex (h6 ! i) + 1
         in if ri < 0 \<or> nat ri \<ge> length h6 then Inl OutOfBounds
            else Inr (set_children (create_right h6 i (nat ri)) i (nat li) (nat ri))))"

text \<open>
  The part of \<^verbatim>\<open>MemorySplitNode\<close> before its recursive calls: it returns, or goes on
  to the recursion with the array as it is then.
\<close>

datatype split_step = Done int "node list" | Recurse "node list" | Failed fault

definition split_here :: "node list \<Rightarrow> nat \<Rightarrow> int \<Rightarrow> split_step" where
  "split_here h i memsize =
     (if left (h ! i) = None \<and> inuse (h ! i) = 0 then
        (if memsize \<le> nsize (h ! i) \<and> memsize > nsize (h ! i) sdiv 2
         then Done (address (h ! i)) (h[i := (h ! i)\<lparr>inuse := 1\<rparr>])
         else if nsize (h ! i) sdiv 2 < memsize then Done (- 1) h
         else if norder (h ! i) = 0 then Done (- 1) h
         else (case make_children h i of Inl e \<Rightarrow> Failed e | Inr h' \<Rightarrow> Recurse h'))
      else Recurse h)"

fun MemorySplitNode :: "nat \<Rightarrow> node list \<Rightarrow> nat option \<Rightarrow> int \<Rightarrow> (fault + int \<times> node list) option" where
  "MemorySplitNode 0 h nd memsize = None"
| "MemorySplitNode (Suc fuel) h None memsize = Some (Inr (- 1, h))"
| "MemorySplitNode (Suc fuel) h (Some i) memsize =
     (if i \<ge> length h then Some (Inl OutOfBounds)
      else case split_here h i memsize of
             Failed e \<Rightarrow> Some (Inl e)
           | Done r h' \<Rightarrow> Some (Inr (r, h'))
           | Recurse h' \<Rightarrow>
               (case MemorySplitNode fuel h' (left (h' ! i)) memsize of
                  None \<Rightarrow> None
                | Some (Inl e) \<Rightarrow> Some (Inl e)
                | Some (Inr (temp_node, h1)) \<Rightarrow>
                    if temp_node \<ge> 0 then Some (Inr (temp_node, h1))
                    else MemorySplitNode fuel h1 (right (h1 ! i)) memsize))"

text \<open>\<^verbatim>\<open>malloc\<close> returns a pointer, here the integer value of the address, 0 for \<^verbatim>\<open>NULL\<close>.\<close>

definition malloc :: "nat \<Rightarrow> pcb \<Rightarrow> int \<Rightarrow> (fault + int \<times> pcb) option" where
  "malloc fuel p memsize =
     (if memsize \<le> 0 \<or> memsize > int MEM_PAGESIZE then Some (Inr (0, p))
      else case MemoryNodeSearch fuel (heap_array p) (Some 1) memsize of
             None \<Rightarrow> None
           | Some (Inl e) \<Rightarrow> Some (Inl e)
           | Some (Inr (block, h1)) \<Rightarrow>
               if block \<ge> 0 then Some (Inr ((int MEM_PAGESIZE * 4) OR block, p\<lparr>heap_array := h1\<rparr>))
               else
                 (case MemorySplitNode fuel h1 (Some 1) memsize of
                    None \<Rightarrow> None
                  | Some (Inl e) \<Rightarrow> Some (Inl e)
                  | Some (Inr (block', h2)) \<Rightarrow>
                      if block' \<ge> 0
                      then Some (Inr ((int MEM_PAGESIZE * 4) OR block', p\<lparr>heap_array := h2\<rparr>))
                      else Some (Inr (0, p\<lparr>heap_array := h2\<rparr>))))"

fun MemoryCoalescing :: "nat \<Rightarrow> node list \<Rightarrow> nat option \<Rightarrow> (fault + node list) option" where
  "MemoryCoalescing 0 h nd = None"
| "MemoryCoalescing (Suc fuel) h None = Some (Inr h)"
| "MemoryCoalescing (Suc fuel) h (Some i) =
     (if i \<ge> length h then Some (Inl OutOfBounds)
      else
        (let h1 = h[i := (h ! i)\<lparr>inuse := 0, left := None, right := None\<rparr>] in
         case parent (h1 ! i) of
           None \<Rightarrow> Some (Inr h1)
         | Some pa \<Rightarrow>
             if pa \<ge> length h1 then Some (Inl OutOfBounds)
             else if left (h1 ! pa) = Some i then
               (case right (h1 ! pa) of
                  None \<Rightarrow> Some (Inl NullDeref)
                | Some r \<Rightarrow>
                    if r \<ge> length h1 then Some (Inl OutOfBounds)
                    else if inuse (h1 ! r) = 0 then MemoryCoalescing fuel h1 (Some pa)
                    else Some (Inr h1))
             else
               (case left (h1 ! pa) of
                  None \<Rightarrow> Some (Inl NullDeref)
                | Some l \<Rightarrow>
                    if l \<ge> length h1 then Some (Inl OutOfBounds)
                    else if inuse (h1 ! l) = 0 then MemoryCoalescing fuel h1 (Some pa)
                    else Some (Inr h1))))"

text \<open>
  The scan of \<^verbatim>\<open>mfree\<close> over the whole array. It has no \<^verbatim>\<open>break\<close>, so the last
  match is kept; \<open>None\<close> is the local \<^verbatim>\<open>node\<close> never assigned.
\<close>

fun find_node :: "node list \<Rightarrow> int \<Rightarrow> nat list \<Rightarrow> nat option \<Rightarrow> nat option" where
  "find_node h heap_address [] nd = nd"
| "find_node h heap_address (i # is) nd =
     find_node h heap_address is (if address (h ! i) = heap_address then Some i else nd)"

definition mfree_rejects :: "int \<Rightarrow> bool" where
  "mfree_rejects ptr \<longleftrightarrow> ptr = 0 \<or> ptr \<ge> 5 * int MEM_PAGESIZE \<or> ptr < 4 * int MEM_PAGESIZE"

definition mfree :: "'a mem_consts_scheme \<Rightarrow> nat \<Rightarrow> pcb \<Rightarrow> int \<Rightarrow> (fault + int \<times> pcb) option" where
  "mfree K fuel p ptr =
     (if mfree_rejects ptr then Some (Inr (MEM_FAIL K, p))
      else
        (let heap_address = ptr AND MEM_PAGE_OFFSET_MASK in
         case find_node (heap_array p) heap_address [1 ..< length (heap_array p)] None of
           None \<Rightarrow> Some (Inl Uninitialised)
         | Some i \<Rightarrow>
             (case MemoryCoalescing fuel (heap_array p) (Some i) of
                None \<Rightarrow> None
              | Some (Inl e) \<Rightarrow> Some (Inl e)
              | Some (Inr h') \<Rightarrow> Some (Inr (nsize (h' ! i), p\<lparr>heap_array := h'\<rparr>)))))"

subsection \<open>Notions of the specification, and concrete constants and states\<close>

text \<open>
  One choice of the constants of memory.h: the failure value negative, as section 9 of
  the specification describes the sentinels, the valid flag in bit 0, and the frame
  field of an entry in the bits of \<^verbatim>\<open>0x1FF000\<close>.
\<close>

definition dlx :: mem_consts where
  "dlx = \<lparr>MEM_FAIL = - 1, MEM_SUCCESS = 1, MEM_PTE_VALID = 1, MEM_MASK_PTE2PAGE = 0x1FF000\<rparr>"

text \<open>A frame number fits the page-number field of an entry.\<close>

definition pte_page_field :: "'a mem_consts_scheme \<Rightarrow> uint32 \<Rightarrow> bool" where
  "pte_page_field K p \<longleftrightarrow>
     p < 2 ^ 20 \<and>
     (p * word_of_nat MEM_PAGESIZE) AND MEM_MASK_PTE2PAGE K = p * word_of_nat MEM_PAGESIZE"

text \<open>A bitmap with no free frame, and a process whose stack has just grown into page 509.\<close>

definition exhausted_mem :: kmem where
  "exhausted_mem = \<lparr>freemapmax = 16, freemap = replicate 16 0, pagestart = 6, nfreepages = 0\<rparr>"

definition growing_pcb :: pcb where
  "growing_pcb = \<lparr>pagetable = (\<lambda>pg. if pg = 511 then 0x1FF001 else 0), npages = 1,
     saved_stackpointer = 0x1FDFF8, saved_fault = 0x1FD000, heap_array = [], killed = False\<rparr>"

text \<open>Frame \<open>p\<close> is free: its bit in the bitmap is set.\<close>

definition frame_free :: "kmem \<Rightarrow> nat \<Rightarrow> bool" where
  "frame_free m p \<longleftrightarrow> p div 32 < length (freemap m) \<and> bit (freemap m ! (p div 32)) (p mod 32)"

text \<open>A bitmap with frames 34 and 36 free.\<close>

definition two_free :: kmem where
  "two_free = \<lparr>freemapmax = 16, freemap = [0, 0x14] @ replicate 14 0, pagestart = 6, nfreepages = 2\<rparr>"

text \<open>A process with page 4 mapped to frame 7 and nothing else.\<close>

definition one_page_pcb :: pcb where
  "one_page_pcb = \<lparr>pagetable = (\<lambda>pg. if pg = 4 then 0x7001 else 0), npages = 1,
     saved_stackpointer = 0x1FFFF8, saved_fault = 0, heap_array = [], killed = False\<rparr>"

text \<open>
  The node at position \<open>j\<close> is an allocated leaf at address \<open>t\<close> whose size \<open>s\<close> fits the
  request: \<open>memsize \<le> s < 2 * memsize\<close>.
\<close>

definition fitting_block :: "node list \<Rightarrow> nat \<Rightarrow> int \<Rightarrow> int \<Rightarrow> bool" where
  "fitting_block h j t memsize \<longleftrightarrow>
     j < length h \<and> left (h ! j) = None \<and> inuse (h ! j) = 1 \<and> address (h ! j) = t
     \<and> memsize \<le> nsize (h ! j) \<and> nsize (h ! j) < 2 * memsize"

text \<open>Every node of the array ends inside the heap region of one page.\<close>

definition heap_within :: "node list \<Rightarrow> bool" where
  "heap_within h \<longleftrightarrow> list_all (\<lambda>n. address n + nsize n \<le> int MEM_PAGESIZE) h"

text \<open>
  Modelled from the spec: the heap array is initialised in process.c, which is not among
  the sources. "Nodes begin inert (unsplit root)" and "the root (index 1) spans the entire
  heap region": every node carries its own position in \<^verbatim>\<open>index\<close>, through which
  \<^verbatim>\<open>MemorySplitNode\<close> finds the children, and is not in use; the root has the size of
  the region and the maximum order \<open>ord\<close>; the other fields start at zero.
\<close>

definition fresh_node :: "nat \<Rightarrow> node" where
  "fresh_node i = \<lparr>parent = None, left = None, right = None, nsize = 0, norder = 0,
     address = 0, nindex = int i, inuse = 0\<rparr>"

definition fresh_heap :: "nat \<Rightarrow> node list" where
  "fresh_heap ord = (map fresh_node [0 ..< 2 ^ (ord + 1)])
     [1 := (fresh_node 1)\<lparr>nsize := int MEM_PAGESIZE, norder := int ord\<rparr>]"

text \<open>A process with the given heap array and an empty page table.\<close>

definition heap_pcb :: "node list \<Rightarrow> pcb" where
  "heap_pcb h = \<lparr>pagetable = (\<lambda>pg. 0), npages = 0, saved_stackpointer = 0, saved_fault = 0,
     heap_array = h, killed = False\<rparr>"

text \<open>Fresh heaps of maximum order 1 (4 array entries) and 2 (8 array entries).\<close>

definition heap4 :: "node list" where
  "heap4 = fresh_heap 1"

definition heap8 :: "node list" where
  "heap8 = fresh_heap 2"

text \<open>The heap of order 1 after its root has been split and the left half allocated.\<close>

definition split_once :: "node list" where
  "split_once =
     [fresh_node 0,
      \<lparr>parent = None, left = Some 2, right = Some 3, nsize = 4096, norder = 1,
         address = 0, nindex = 1, inuse = 0\<rparr>,
      \<lparr>parent = Some 1, left = None, right = None, nsize = 2048, norder = 0,
         address = 0, nindex = 2, inuse = 1\<rparr>,
      \<lparr>parent = Some 1, left = None, right = None, nsize = 2048, norder = 0,
         address = 2048, nindex = 3, inuse = 0\<rparr>]"

text \<open>
  A sequence of \<^verbatim>\<open>malloc\<close> and \<^verbatim>\<open>mfree\<close> calls of one process, with the values
  they return, and the view of the result used below: the values returned, and the
  \<^verbatim>\<open>left\<close> pointer and the \<^verbatim>\<open>inuse\<close> flag of every node.
\<close>

datatype heap_call = Malloc int | Mfree int

fun heap_calls :: "'a mem_consts_scheme \<Rightarrow> nat \<Rightarrow> pcb \<Rightarrow> heap_call list \<Rightarrow> (fault + int list \<times> pcb) option" where
  "heap_calls K fuel p [] = Some (Inr ([], p))"
| "heap_calls K fuel p (c # cs) =
     (case (case c of Malloc memsize \<Rightarrow> malloc fuel p memsize | Mfree ptr \<Rightarrow> mfree K fuel p ptr) of
        None \<Rightarrow> None
      | Some (Inl e) \<Rightarrow> Some (Inl e)
      | Some (Inr (r, p')) \<Rightarrow>
          (case heap_calls K fuel p' cs of
             None \<Rightarrow> None
           | Some (Inl e) \<Rightarrow> Some (Inl e)
           | Some (Inr (rs, p'')) \<Rightarrow> Some (Inr (r # rs, p''))))"

definition heap_view :: "(fault + int list \<times> pcb) option \<Rightarrow> (fault + int list \<times> nat option list \<times> int list) option" where
  "heap_view = map_option (map_sum id (\<lambda>(rs, p). (rs, map left (heap_array p), map inuse (heap_array p))))"

text \<open>The file-level variables before \<^verbatim>\<open>MemoryModuleInit\<close> runs: C initialises them to zero.\<close>

definition boot_kmem :: kmem where
  "boot_kmem = \<lparr>freemapmax = 0, freemap = replicate 16 0, pagestart = 0, nfreepages = 0\<rparr>"

text \<open>
  A sequence of calls of \<^verbatim>\<open>MemoryAllocPage\<close> and \<^verbatim>\<open>MemoryFreePage\<close>. The set \<open>A\<close>
  holds the frames handed out and not yet returned; freeing a frame that is not in it
  (never allocated, or freed already) is \<open>Misuse\<close>. \<open>Stuck\<close> is an allocation that does
  not return, \<open>Crashed\<close> one of the faults above.
\<close>

datatype frame_call = Alloc | Free uint32

datatype run_result = Finished kmem | Misuse | Stuck | Crashed fault

fun run_calls :: "'a mem_consts_scheme \<Rightarrow> kmem \<Rightarrow> int set \<Rightarrow> frame_call list \<Rightarrow> run_result" where
  "run_calls K m A [] = Finished m"
| "run_calls K m A (Alloc # cs) =
     (case MemoryAllocPage K m of
        None \<Rightarrow> Stuck
      | Some (Inl e) \<Rightarrow> Crashed e
      | Some (Inr (r, m')) \<Rightarrow> run_calls K m' (if nfreepages m = 0 then A else insert r A) cs)"
| "run_calls K m A (Free pg # cs) =
     (if uint pg \<notin> A then Misuse
      else case MemoryFreePage m pg of
             Inl e \<Rightarrow> Crashed e
           | Inr m' \<Rightarrow> run_calls K m' (A - {uint pg}) cs)"

text \<open>
  The usable frames are those from \<^verbatim>\<open>pagestart\<close> up to the last page of memory; the
  allocated ones among them have their bit clear. Conservation: the free count and the
  allocated count add up to the number of usable frames.
\<close>

definition usable_frames :: "uint32 \<Rightarrow> int \<Rightarrow> nat set" where
  "usable_frames start maxpage = {p. uint start \<le> int p \<and> int p < maxpage}"

definition allocated_count :: "kmem \<Rightarrow> uint32 \<Rightarrow> int \<Rightarrow> nat" where
  "allocated_count m start maxpage = card {p \<in> usable_frames start maxpage. \<not> frame_free m p}"

definition conserved :: "kmem \<Rightarrow> uint32 \<Rightarrow> int \<Rightarrow> bool" where
  "conserved m start maxpage \<longleftrightarrow>
     nfreepages m + int (allocated_count m start maxpage) = int (card (usable_frames start maxpage))"

text \<open>
  The invariant of the bitmap: every set bit is a usable frame, the free count is the
  number of set bits, and the frames handed out are usable and have their bit clear.
\<close>

definition frames_inv :: "kmem \<Rightarrow> int set \<Rightarrow> int \<Rightarrow> bool" where
  "frames_inv m A maxpage \<longleftrightarrow>
     length (freemap m) = 16 \<and> maxpage \<le> 512 \<and> maxpage \<le> 32 * freemapmax m
     \<and> (\<forall>p. frame_free m p \<longrightarrow> uint (pagestart m) \<le> int p \<and> int p < maxpage)
     \<and> nfreepages m = int (card {p. frame_free m p})
     \<and> (\<forall>a\<in>A. uint (pagestart m) \<le> a \<and> a < maxpage \<and> \<not> frame_free m (nat a))"

text \<open>The state after initialisation with 128 KB of memory and the kernel ending in page 5.\<close>

definition init32 :: kmem where
  "init32 = \<lparr>freemapmax = 1, freemap = 0xFFFFFFC0 # replicate 15 0, pagestart = 6, nfreepages = 26\<rparr>"

section \<open>Properties\<close>

subsection \<open>Words\<close>

lemma word_bit_below:
  fixes w :: uint32
  assumes "unat w < 2 ^ n" and "bit w k"
  shows "k < n"
proof (rule ccontr)
  assume "\<not> k < n"
  then have "(2::nat) ^ n \<le> 2 ^ k" by simp
  with assms(1) have "unat w < 2 ^ k" by (rule less_le_trans)
  then have "unat w div 2 ^ k = 0" by (rule div_less)
  moreover have "bit (unat w) k" using assms(2) by (simp add: bit_unsigned_iff)
  ultimately show False by (simp add: bit_iff_odd)
qed

subsection \<open>Page table entries\<close>

lemma pte_valid_dropped:
  fixes v :: uint32
  assumes "v < 4096"
  shows "drop_bit 12 (v AND m) = 0"
proof (rule bit_word_eqI)
  fix n assume "n < LENGTH(32)"
  have "unat v < 2 ^ 12" using assms by (simp add: word_less_nat_alt)
  then have "\<not> bit v (12 + n)"
    using word_bit_below [of v 12 "12 + n"] by auto
  then show "bit (drop_bit 12 (v AND m)) n = bit (0 :: uint32) n"
    by (simp add: bit_simps add.commute)
qed

lemma drop_push_page:
  fixes p :: uint32
  assumes "p < 2 ^ 20"
  shows "drop_bit 12 (push_bit 12 p) = p"
proof (rule bit_word_eqI)
  fix n assume n: "n < LENGTH(32)"
  have "unat p < 2 ^ 20" using assms by (simp add: word_less_nat_alt)
  then show "bit (drop_bit 12 (push_bit 12 p)) n = bit p n"
    using word_bit_below [of p 20 n] by (auto simp: bit_simps)
qed

lemma pte_extract:
  fixes p :: uint32
  assumes f: "pte_page_field K p"
      and v: "MEM_PTE_VALID K < 4096"
  shows "(MemorySetupPte K p AND MEM_MASK_PTE2PAGE K) div word_of_nat MEM_PAGESIZE = p"
proof -
  have f': "push_bit 12 p AND MEM_MASK_PTE2PAGE K = push_bit 12 p" and b: "p < 2 ^ 20"
    using f by (simp_all add: pte_page_field_def MEM_PAGESIZE_def push_bit_eq_mult)
  have e: "MemorySetupPte K p AND MEM_MASK_PTE2PAGE K
             = push_bit 12 p OR (MEM_PTE_VALID K AND MEM_MASK_PTE2PAGE K)"
    using f' by (simp add: MemorySetupPte_def MEM_PAGESIZE_def push_bit_eq_mult bit.conj_disj_distrib2)
  have "(MemorySetupPte K p AND MEM_MASK_PTE2PAGE K) div word_of_nat MEM_PAGESIZE
          = drop_bit 12 (MemorySetupPte K p AND MEM_MASK_PTE2PAGE K)"
    by (simp add: MEM_PAGESIZE_def drop_bit_eq_div)
  also have "\<dots> = drop_bit 12 (push_bit 12 p) OR drop_bit 12 (MEM_PTE_VALID K AND MEM_MASK_PTE2PAGE K)"
    by (simp only: e drop_bit_or)
  also have "\<dots> = p"
    by (simp only: pte_valid_dropped [OF v] drop_push_page [OF b]) simp
  finally show ?thesis .
qed

text \<open>
  C9. For every frame number \<open>p\<close> that fits the page-number field, with the valid flag
  among the offset bits: masking \<^verbatim>\<open>MemorySetupPte(p)\<close> with the PTE-to-page mask and
  dividing by the page size gives \<open>p\<close> again, so \<^verbatim>\<open>MemoryFreePageTableEntry\<close> on the
  entry built for \<open>p\<close> is \<^verbatim>\<open>MemoryFreePage(p)\<close>.
\<close>

theorem MemoryFreePageTableEntry_SetupPte:
  assumes "pte_page_field K p" and "MEM_PTE_VALID K < 4096"
  shows "(MemorySetupPte K p AND MEM_MASK_PTE2PAGE K) div word_of_nat MEM_PAGESIZE = p
       \<and> MemoryFreePageTableEntry K m (MemorySetupPte K p) = MemoryFreePage m p"
  using pte_extract [OF assms] by (simp add: MemoryFreePageTableEntry_def)

theorem MemoryFreePageTableEntry_SetupPte_witness:
  "pte_page_field dlx 5 \<and> MEM_PTE_VALID dlx < 4096
   \<and> (MemorySetupPte dlx 5 AND MEM_MASK_PTE2PAGE dlx) div word_of_nat MEM_PAGESIZE = 5
   \<and> MemoryFreePageTableEntry dlx exhausted_mem (MemorySetupPte dlx 5) = MemoryFreePage exhausted_mem 5"
proof -
  have a: "pte_page_field dlx 5" by (simp add: pte_page_field_def dlx_def MEM_PAGESIZE_def)
  have b: "MEM_PTE_VALID dlx < 4096" by (simp add: dlx_def)
  show ?thesis using a b MemoryFreePageTableEntry_SetupPte [OF a b] by simp
qed

subsection \<open>The page fault handler\<close>

lemma handler_exhausted:
  assumes "nfreepages m = 0" and "\<not> saved_fault p < (saved_stackpointer p AND 0x1FF000)"
  shows "MemoryPageFaultHandler K m p =
     Some (Inr (MEM_SUCCESS K, m,
       p\<lparr>killed := True,
         pagetable := (pagetable p)(unat (MEM_ADDR2PAGE (saved_fault p)) :=
            MemorySetupPte K (word_of_int (MEM_FAIL K))),
         npages := npages p + 1\<rparr>))"
  using assms by (simp add: MemoryPageFaultHandler_def MemoryAllocPage_def ProcessKill_def Let_def)

text \<open>
  C1. With no free frame and a fault at the stack pointer's page, the handler calls
  \<^verbatim>\<open>ProcessKill\<close> and then goes on: it installs the entry built from the failure
  value for page 509, counts one more mapped page and returns the success value.
\<close>

theorem MemoryPageFaultHandler_exhausted_returns_success:
  "MemoryPageFaultHandler dlx exhausted_mem growing_pcb =
     Some (Inr (MEM_SUCCESS dlx, exhausted_mem,
       growing_pcb\<lparr>killed := True,
         pagetable := (pagetable growing_pcb)(509 := 0xFFFFF001),
         npages := npages growing_pcb + 1\<rparr>))
   \<and> MEM_SUCCESS dlx \<noteq> MEM_FAIL dlx
   \<and> pagetable growing_pcb 509 = 0"
proof -
  have a: "nfreepages exhausted_mem = 0" by (simp add: exhausted_mem_def)
  have b: "\<not> saved_fault growing_pcb < (saved_stackpointer growing_pcb AND 0x1FF000)"
    by (simp add: growing_pcb_def)
  have c: "unat (MEM_ADDR2PAGE (saved_fault growing_pcb)) = 509"
    by (simp add: growing_pcb_def MEM_ADDR2PAGE_def drop_bit_eq_div)
  have d: "MemorySetupPte dlx (word_of_int (MEM_FAIL dlx)) = 0xFFFFF001"
    by (simp add: MemorySetupPte_def dlx_def MEM_PAGESIZE_def)
  show ?thesis
    unfolding handler_exhausted [OF a b] c d
    by (simp add: dlx_def growing_pcb_def)
qed

subsection \<open>Frame allocation\<close>

lemma and_bit_zero_iff:
  fixes w :: uint32
  shows "w AND push_bit k 1 = 0 \<longleftrightarrow> \<not> bit w k"
  by (simp add: and_exp_eq_0_iff_not_bit)

lemma invert_eq_not: "invert n = NOT n"
proof -
  have "(0xFFFFFFFF :: uint32) = - 1" by simp
  then show ?thesis
    unfolding invert_def negativeone_def by (simp only: bit.xor_one_right)
qed

lemma bit_clear_iff:
  fixes w :: uint32
  shows "bit (w AND invert (push_bit b 1)) k \<longleftrightarrow> bit w k \<and> k \<noteq> b"
  by (auto simp: invert_eq_not bit_simps dest: bit_imp_le_length)

lemma alloc_scan_finds:
  assumes "j < length fm" and "fm ! j \<noteq> 0" and "\<forall>i<j. fm ! i = 0" and "int j < fmax"
  shows "i \<le> j \<Longrightarrow> alloc_scan fm fmax (int i) = Some (Inr (int j))"
proof (induction "j - i" arbitrary: i)
  case 0
  then have "i = j" by simp
  then show ?case using assms by (subst alloc_scan.simps) simp
next
  case (Suc d)
  then have lt: "i < j" by simp
  then have z: "fm ! i = 0" using assms(3) by simp
  have "alloc_scan fm fmax (int i) = alloc_scan fm fmax (int i + 1)"
    using lt z assms(1,4) by (subst alloc_scan.simps) auto
  also have "\<dots> = alloc_scan fm fmax (int (Suc i))"
    by (simp add: add.commute)
  also have "\<dots> = Some (Inr (int j))"
    using Suc lt by (intro Suc.hyps(1)) auto
  finally show ?case .
qed

lemma bit_scan_finds:
  assumes "b < 32" and "bit w b" and "\<forall>k<b. \<not> bit w k"
  shows "k \<le> b \<Longrightarrow> bit_scan w k = Some (Inr b)"
proof (induction "b - k" arbitrary: k)
  case 0
  then have "k = b" by simp
  then show ?case using assms by (subst bit_scan.simps) (simp add: and_exp_eq_0_iff_not_bit)
next
  case (Suc d)
  then have lt: "k < b" by simp
  have "bit_scan w k = bit_scan w (Suc k)"
    using lt assms by (subst bit_scan.simps) (simp add: and_exp_eq_0_iff_not_bit)
  also have "\<dots> = Some (Inr b)"
    using Suc lt by (intro Suc.hyps(1)) auto
  finally show ?case .
qed

lemma word_nonzero_bit:
  fixes w :: uint32
  assumes "w \<noteq> 0"
  shows "\<exists>k<32. bit w k"
proof (rule ccontr)
  assume "\<not> (\<exists>k<32. bit w k)"
  then have "w = 0" by (intro bit_word_eqI) simp
  with assms show False by simp
qed

lemma frame_free_least:
  assumes "frame_free m p"
  defines "q \<equiv> LEAST r. frame_free m r"
  shows "frame_free m q" and "\<forall>r<q. \<not> frame_free m r" and "q \<le> p"
    and "\<forall>i < q div 32. freemap m ! i = 0"
proof -
  show f: "frame_free m q" unfolding q_def using assms(1) by (rule LeastI)
  show l: "\<forall>r<q. \<not> frame_free m r" unfolding q_def using not_less_Least by blast
  show "q \<le> p" unfolding q_def using assms(1) by (rule Least_le)
  show "\<forall>i < q div 32. freemap m ! i = 0"
  proof (intro allI impI, rule ccontr)
    fix i assume i: "i < q div 32" and nz: "freemap m ! i \<noteq> 0"
    then obtain k where k: "k < 32" "bit (freemap m ! i) k"
      using word_nonzero_bit by blast
    have "i < length (freemap m)" using i f by (simp add: frame_free_def)
    then have "frame_free m (i * 32 + k)" using k by (simp add: frame_free_def)
    moreover have "i * 32 + k < q" using i k by auto
    ultimately show False using l by blast
  qed
qed

lemma MemoryAllocPage_success:
  assumes n: "nfreepages m \<noteq> 0" and p: "frame_free m p" and s: "int (p div 32) < freemapmax m"
  defines "q \<equiv> LEAST r. frame_free m r"
  shows "MemoryAllocPage K m = Some (Inr (int q,
           m\<lparr>freemap := (freemap m)[q div 32 := (freemap m ! (q div 32)) AND invert (push_bit (q mod 32) 1)],
             nfreepages := nfreepages m - 1\<rparr>))"
proof -
  note L = frame_free_least [OF p, folded q_def]
  let ?j = "q div 32" and ?b = "q mod 32"
  have j: "?j < length (freemap m)" and b: "bit (freemap m ! ?j) ?b"
    using L(1) by (simp_all add: frame_free_def)
  have nz: "freemap m ! ?j \<noteq> 0" using b by auto
  have jm: "int ?j < freemapmax m" using L(3) s
    by (meson div_le_mono le_less_trans of_nat_le_iff)
  have scan: "alloc_scan (freemap m) (freemapmax m) 0 = Some (Inr (int ?j))"
    using alloc_scan_finds [OF j nz L(4) jm, of 0] by simp
  have low: "\<forall>k<?b. \<not> bit (freemap m ! ?j) k"
  proof (intro allI impI)
    fix k assume k: "k < ?b"
    have "?j * 32 + k < q"
      using k by (metis add.commute add_less_cancel_left mult.commute mult_div_mod_eq)
    then have "\<not> frame_free m (?j * 32 + k)" using L(2) by blast
    moreover have "k < 32" using k by (meson less_trans mod_less_divisor zero_less_numeral)
    ultimately show "\<not> bit (freemap m ! ?j) k" using j by (simp add: frame_free_def)
  qed
  have bs: "bit_scan (freemap m ! ?j) 0 = Some (Inr ?b)"
    using bit_scan_finds [OF _ b low, of 0] by simp
  have "int ?j * 32 + int ?b = int q"
    by (metis mult.commute div_mult_mod_eq of_nat_add of_nat_mult of_nat_numeral)
  then show ?thesis
    using n by (simp add: MemoryAllocPage_def scan bs)
qed

text \<open>
  C6. In a state whose free count is not zero and that has a free frame in the words the
  scan covers, \<^verbatim>\<open>MemoryAllocPage\<close> returns the lowest free frame and decrements the
  count; the result is a function of the state alone. When the free count is zero it
  returns the failure value and the state is unchanged.
\<close>

theorem MemoryAllocPage_lowest_free:
  "(nfreepages m \<noteq> 0 \<and> frame_free m p \<and> int (p div 32) < freemapmax m \<longrightarrow>
      (\<exists>q m'. MemoryAllocPage K m = Some (Inr (int q, m')) \<and> frame_free m q \<and> (\<forall>r<q. \<not> frame_free m r)
         \<and> nfreepages m' = nfreepages m - 1))
   \<and> (nfreepages m = 0 \<longrightarrow> MemoryAllocPage K m = Some (Inr (MEM_FAIL K, m)))"
proof (intro conjI impI)
  assume a: "nfreepages m \<noteq> 0 \<and> frame_free m p \<and> int (p div 32) < freemapmax m"
  then have n: "nfreepages m \<noteq> 0" and f: "frame_free m p" and s: "int (p div 32) < freemapmax m"
    by simp_all
  define q where "q = (LEAST r. frame_free m r)"
  define m' where "m' = m\<lparr>freemap := (freemap m)[q div 32 := (freemap m ! (q div 32)) AND invert (push_bit (q mod 32) 1)],
             nfreepages := nfreepages m - 1\<rparr>"
  have r: "MemoryAllocPage K m = Some (Inr (int q, m'))"
    unfolding q_def m'_def using n f s by (rule MemoryAllocPage_success)
  have c: "nfreepages m' = nfreepages m - 1" by (simp add: m'_def)
  have "MemoryAllocPage K m = Some (Inr (int q, m')) \<and> frame_free m q \<and> (\<forall>r<q. \<not> frame_free m r)
         \<and> nfreepages m' = nfreepages m - 1"
    using r c frame_free_least(1,2) [OF f, folded q_def] by (intro conjI)
  then show "\<exists>q m'. MemoryAllocPage K m = Some (Inr (int q, m')) \<and> frame_free m q \<and> (\<forall>r<q. \<not> frame_free m r)
         \<and> nfreepages m' = nfreepages m - 1"
    by (intro exI)
next
  assume "nfreepages m = 0"
  then show "MemoryAllocPage K m = Some (Inr (MEM_FAIL K, m))"
    by (simp add: MemoryAllocPage_def)
qed

lemma two_free_36: "frame_free two_free 36"
  by (simp add: frame_free_def two_free_def bit_iff_odd)

theorem MemoryAllocPage_lowest_free_witness:
  "nfreepages two_free \<noteq> 0 \<and> frame_free two_free 36 \<and> int (36 div 32) < freemapmax two_free
   \<and> (\<exists>q m'. MemoryAllocPage dlx two_free = Some (Inr (int q, m')) \<and> frame_free two_free q
         \<and> (\<forall>r<q. \<not> frame_free two_free r) \<and> nfreepages m' = nfreepages two_free - 1)
   \<and> nfreepages exhausted_mem = 0
   \<and> MemoryAllocPage dlx exhausted_mem = Some (Inr (MEM_FAIL dlx, exhausted_mem))"
proof -
  have a: "nfreepages two_free \<noteq> 0 \<and> frame_free two_free 36 \<and> int (36 div 32) < freemapmax two_free"
    using two_free_36 by (simp add: two_free_def)
  have b: "nfreepages exhausted_mem = 0" by (simp add: exhausted_mem_def)
  show ?thesis
    using a b MemoryAllocPage_lowest_free [of two_free 36 dlx] MemoryAllocPage_lowest_free [of exhausted_mem 0 dlx]
    by blast
qed

text \<open>
  C8. A successful allocation clears the bit of the frame it returns, which was set, and
  changes no other bit of any word of the bitmap.
\<close>

theorem MemoryAllocPage_clears_one_bit:
  assumes "nfreepages m \<noteq> 0" and "frame_free m p" and "int (p div 32) < freemapmax m"
  shows "\<exists>q m'. MemoryAllocPage K m = Some (Inr (int q, m'))
     \<and> length (freemap m') = length (freemap m)
     \<and> q div 32 < length (freemap m)
     \<and> bit (freemap m ! (q div 32)) (q mod 32)
     \<and> \<not> bit (freemap m' ! (q div 32)) (q mod 32)
     \<and> (\<forall>i<length (freemap m). \<forall>k. i \<noteq> q div 32 \<or> k \<noteq> q mod 32 \<longrightarrow>
           bit (freemap m' ! i) k = bit (freemap m ! i) k)"
proof -
  define q where "q = (LEAST r. frame_free m r)"
  define m' where "m' = m\<lparr>freemap := (freemap m)[q div 32 := (freemap m ! (q div 32)) AND invert (push_bit (q mod 32) 1)],
             nfreepages := nfreepages m - 1\<rparr>"
  have r: "MemoryAllocPage K m = Some (Inr (int q, m'))"
    unfolding q_def m'_def using assms by (rule MemoryAllocPage_success)
  have f: "frame_free m q"
    unfolding q_def using assms(2) by (rule frame_free_least(1))
  then have j: "q div 32 < length (freemap m)" and b: "bit (freemap m ! (q div 32)) (q mod 32)"
    by (simp_all add: frame_free_def)
  have c: "\<not> bit (freemap m' ! (q div 32)) (q mod 32)"
    using j by (simp add: m'_def bit_clear_iff del: push_bit_of_1)
  have o: "\<forall>i<length (freemap m). \<forall>k. i \<noteq> q div 32 \<or> k \<noteq> q mod 32 \<longrightarrow>
           bit (freemap m' ! i) k = bit (freemap m ! i) k"
  proof (intro allI impI)
    fix i k assume i: "i < length (freemap m)" and d: "i \<noteq> q div 32 \<or> k \<noteq> q mod 32"
    show "bit (freemap m' ! i) k = bit (freemap m ! i) k"
    proof (cases "i = q div 32")
      case True
      with d have "k \<noteq> q mod 32" by simp
      with True i show ?thesis by (simp add: m'_def bit_clear_iff del: push_bit_of_1)
    next
      case False
      then show ?thesis by (simp add: m'_def)
    qed
  qed
  have l: "length (freemap m') = length (freemap m)" by (simp add: m'_def)
  show ?thesis using r l j b c o by blast
qed

theorem MemoryAllocPage_clears_one_bit_witness:
  "nfreepages two_free \<noteq> 0 \<and> frame_free two_free 36 \<and> int (36 div 32) < freemapmax two_free
   \<and> (\<exists>q m'. MemoryAllocPage dlx two_free = Some (Inr (int q, m'))
     \<and> length (freemap m') = length (freemap two_free)
     \<and> q div 32 < length (freemap two_free)
     \<and> bit (freemap two_free ! (q div 32)) (q mod 32)
     \<and> \<not> bit (freemap m' ! (q div 32)) (q mod 32)
     \<and> (\<forall>i<length (freemap two_free). \<forall>k. i \<noteq> q div 32 \<or> k \<noteq> q mod 32 \<longrightarrow>
           bit (freemap m' ! i) k = bit (freemap two_free ! i) k))"
proof -
  have a: "nfreepages two_free \<noteq> 0" by (simp add: two_free_def)
  have c: "int (36 div 32) < freemapmax two_free" by (simp add: two_free_def)
  show ?thesis
    using a two_free_36 c MemoryAllocPage_clears_one_bit [OF a two_free_36 c, of dlx] by simp
qed

text \<open>The allocation on the example bitmap, step by step: frame 34.\<close>

lemma MemoryAllocPage_two_free:
  "MemoryAllocPage dlx two_free = Some (Inr (34, two_free\<lparr>freemap := [0, 0x10] @ replicate 14 0, nfreepages := 1\<rparr>))"
proof -
  have s: "alloc_scan (freemap two_free) 16 0 = Some (Inr 1)"
    apply (subst alloc_scan.simps, simp add: two_free_def)
    apply (subst alloc_scan.simps, simp add: two_free_def)
    done
  have b: "bit_scan 0x14 0 = Some (Inr 2)"
    apply (subst bit_scan.simps, simp)
    apply (subst bit_scan.simps, simp)
    apply (subst bit_scan.simps, simp)
    done
  have i: "(0x14 :: uint32) AND invert 4 = 0x10"
    by (simp add: invert_def negativeone_def)
  show ?thesis
    using s b by (simp add: MemoryAllocPage_def two_free_def i)
qed

subsection \<open>Copying between address spaces\<close>

lemma translate_nonzero_full_copy:
  assumes "\<forall>a. MemoryTranslateUserToSystem K p a \<noteq> 0" and "0 \<le> n"
  shows "fst (move_loop K p dir mem system user n bytesCopied) = bytesCopied + n"
  using assms
proof (induction K p dir mem system user n bytesCopied rule: move_loop.induct)
  case (1 K p dir mem system user n bytesCopied)
  show ?case
  proof (cases "0 < n")
    case False
    with "1.prems" show ?thesis by (subst move_loop.simps) simp
  next
    case True
    define curUser where "curUser = MemoryTranslateUserToSystem K p user"
    define inpage where "inpage = int MEM_PAGESIZE - uint (curUser AND MEM_ADDR_OFFS_MASK)"
    define bytesToCopy where "bytesToCopy = (if inpage > n then n else inpage)"
    define mem' where "mem' = (if dir \<ge> 0 then bcopy mem system curUser (nat bytesToCopy)
                        else bcopy mem curUser system (nat bytesToCopy))"
    have nz: "curUser \<noteq> 0" using "1.prems"(1) by (simp add: curUser_def)
    have le: "bytesToCopy \<le> n" by (simp add: bytesToCopy_def)
    have "fst (move_loop K p dir mem' (system + word_of_int bytesToCopy)
                 (user + word_of_int bytesToCopy) (n - bytesToCopy) (bytesCopied + bytesToCopy))
          = bytesCopied + bytesToCopy + (n - bytesToCopy)"
      using "1.IH" [OF True curUser_def nz inpage_def bytesToCopy_def mem'_def] "1.prems" le
      by simp
    moreover have "move_loop K p dir mem system user n bytesCopied
        = move_loop K p dir mem' (system + word_of_int bytesToCopy)
                 (user + word_of_int bytesToCopy) (n - bytesToCopy) (bytesCopied + bytesToCopy)"
      using True nz
      by (subst move_loop.simps) (simp add: Let_def curUser_def inpage_def bytesToCopy_def mem'_def)
    ultimately show ?thesis by simp
  qed
qed

lemma move_loop_stops_when_fail_is_null:
  assumes "pagetable p (unat (MEM_ADDR2PAGE user)) AND MEM_PTE_VALID K = 0" and "0 < n"
  shows "word_of_int (MEM_FAIL K) = (0 :: uint32) \<Longrightarrow> move_loop K p dir mem system user n bytesCopied = (bytesCopied, mem)"
  using assms by (subst move_loop.simps) (simp add: MemoryTranslateUserToSystem_def Let_def)

lemma translate_page4: "MemoryTranslateUserToSystem dlx one_page_pcb 0x4000 = 0x7000"
  by (simp add: MemoryTranslateUserToSystem_def dlx_def one_page_pcb_def MEM_ADDR2PAGE_def MEM_ADDR2OFFS_def MEM_ADDR_OFFS_MASK_def drop_bit_eq_div)

lemma page5_unmapped: "pagetable one_page_pcb (unat (MEM_ADDR2PAGE 0x5000)) AND MEM_PTE_VALID dlx = 0"
  by (simp add: dlx_def one_page_pcb_def MEM_ADDR2PAGE_def  drop_bit_eq_div)

text \<open>
  C2. Page 4 is mapped and page 5 is not. A copy of 4099 bytes to user address
  \<^verbatim>\<open>0x4000\<close> does not stop after the 4096 bytes of the mapped page: the translation
  of the unmapped address is the failure value, the loop compares it with 0, and with a
  failure value other than 0 the copy goes on (one byte per round here) and returns the
  full 4099.
\<close>

theorem MemoryMoveBetweenSpaces_copies_past_unmapped:
  "fst (MemoryMoveBetweenSpaces dlx one_page_pcb (\<lambda>a. 0) 0x10000 0x4000 4099 1) = 4099"
  apply (simp add: MemoryMoveBetweenSpaces_def)
  apply (subst move_loop.simps)
  apply (simp add: translate_page4 Let_def MEM_PAGESIZE_def MEM_ADDR_OFFS_MASK_def)
  apply (subst move_loop.simps)
  apply (simp add: MemoryTranslateUserToSystem_def dlx_def one_page_pcb_def MEM_ADDR2PAGE_def MEM_ADDR2OFFS_def MEM_ADDR_OFFS_MASK_def drop_bit_eq_div Let_def MEM_PAGESIZE_def)
  apply (subst move_loop.simps)
  apply (simp add: MemoryTranslateUserToSystem_def dlx_def one_page_pcb_def MEM_ADDR2PAGE_def MEM_ADDR2OFFS_def MEM_ADDR_OFFS_MASK_def drop_bit_eq_div Let_def MEM_PAGESIZE_def)
  apply (subst move_loop.simps)
  apply (simp add: MemoryTranslateUserToSystem_def dlx_def one_page_pcb_def MEM_ADDR2PAGE_def MEM_ADDR2OFFS_def MEM_ADDR_OFFS_MASK_def drop_bit_eq_div Let_def MEM_PAGESIZE_def)
  apply (subst move_loop.simps)
  apply simp
  done

subsection \<open>The buddy heap\<close>

lemma sdiv_2_nonneg: "0 \<le> x \<Longrightarrow> x sdiv 2 = x div (2::int)"
  by (simp add: signed_divide_int_def sgn_if)

lemma half_bound:
  fixes x m :: int
  assumes "0 < m" and "m \<le> x" and "x sdiv 2 < m"
  shows "x < 2 * m"
proof -
  have "x sdiv 2 = x div 2" using assms by (intro sdiv_2_nonneg) simp
  with assms(3) show ?thesis by linarith
qed

lemma MemoryNodeSearch_fitting:
  assumes "MemoryNodeSearch fuel h nd memsize = Some (Inr (t, h'))" and "0 \<le> t" and "0 < memsize"
  shows "\<exists>j. fitting_block h' j t memsize"
  using assms
proof (induction fuel h nd memsize arbitrary: t h' rule: MemoryNodeSearch.induct)
  case (1 h nd memsize)
  then show ?case by simp
next
  case (2 fuel h memsize)
  then show ?case by simp
next
  case (3 fuel h i memsize)
  show ?case
  proof (cases "i \<ge> length h")
    case True
    with "3.prems" show ?thesis by simp
  next
    case inb: False
    show ?thesis
    proof (cases "left (h ! i) = None \<and> inuse (h ! i) = 0")
      case leaf: True
      show ?thesis
      proof (cases "memsize \<le> nsize (h ! i) \<and> memsize > nsize (h ! i) sdiv 2")
        case True
        with leaf inb "3.prems" have e: "t = address (h ! i)" "h' = h[i := (h ! i)\<lparr>inuse := 1\<rparr>]"
          by simp_all
        have "nsize (h ! i) < 2 * memsize"
          using True "3.prems"(3) by (intro half_bound) simp_all
        then have "fitting_block h' i t memsize"
          using inb leaf True by (simp add: fitting_block_def e)
        then show ?thesis ..
      next
        case False
        with leaf inb "3.prems" show ?thesis by simp
      qed
    next
      case inner: False
      from inb inner "3.prems"(1) obtain t1 h1 where
        l: "MemoryNodeSearch fuel h (left (h ! i)) memsize = Some (Inr (t1, h1))"
        by (auto split: option.splits sum.splits)
      show ?thesis
      proof (cases "t1 \<ge> 0")
        case True
        with inb inner l "3.prems"(1) have "t = t1" "h' = h1" by auto
        with "3.IH"(1) [OF inb inner l] True "3.prems"(3) show ?thesis by simp
      next
        case False
        with inb inner l "3.prems"(1) have
          r: "MemoryNodeSearch fuel h1 (right (h1 ! i)) memsize = Some (Inr (t, h'))" by auto
        from "3.IH"(2) [OF inb inner l refl refl False r "3.prems"(2,3)] show ?thesis .
      qed
    qed
  qed
qed

lemma split_here_Done:
  assumes "split_here h i memsize = Done t h'" and "0 \<le> t" and "0 < memsize" and "i < length h"
  shows "fitting_block h' i t memsize"
proof -
  from assms(1,2) have c: "left (h ! i) = None \<and> inuse (h ! i) = 0"
      and g: "memsize \<le> nsize (h ! i) \<and> memsize > nsize (h ! i) sdiv 2"
      and e: "t = address (h ! i)" "h' = h[i := (h ! i)\<lparr>inuse := 1\<rparr>]"
    by (auto simp: split_here_def split: if_splits sum.splits)
  have "nsize (h ! i) < 2 * memsize"
    using g assms(3) by (intro half_bound) simp_all
  then show ?thesis
    using c g assms(4) by (simp add: fitting_block_def e)
qed

lemma MemorySplitNode_fitting:
  assumes "MemorySplitNode fuel h nd memsize = Some (Inr (t, h'))" and "0 \<le> t" and "0 < memsize"
  shows "\<exists>j. fitting_block h' j t memsize"
  using assms
proof (induction fuel h nd memsize arbitrary: t h' rule: MemorySplitNode.induct)
  case (1 h nd memsize)
  then show ?case by simp
next
  case (2 fuel h memsize)
  then show ?case by simp
next
  case (3 fuel h i memsize)
  show ?case
  proof (cases "i \<ge> length h")
    case True
    with "3.prems" show ?thesis by simp
  next
    case inb: False
    show ?thesis
    proof (cases "split_here h i memsize")
      case (Failed e)
      with inb "3.prems" show ?thesis by simp
    next
      case (Done r hd)
      with inb "3.prems"(1) have "r = t" "hd = h'" by simp_all
      with Done have "split_here h i memsize = Done t h'" by simp
      from split_here_Done [OF this "3.prems"(2,3)] inb show ?thesis by auto
    next
      case (Recurse hr)
      from inb Recurse "3.prems"(1) obtain t1 h1 where
        l: "MemorySplitNode fuel hr (left (hr ! i)) memsize = Some (Inr (t1, h1))"
        by (auto split: option.splits sum.splits)
      show ?thesis
      proof (cases "t1 \<ge> 0")
        case True
        with inb Recurse l "3.prems"(1) have "t = t1" "h' = h1" by auto
        with "3.IH"(1) [OF inb Recurse l] True "3.prems"(3) show ?thesis by simp
      next
        case False
        with inb Recurse l "3.prems"(1) have
          r: "MemorySplitNode fuel h1 (right (h1 ! i)) memsize = Some (Inr (t, h'))" by auto
        from "3.IH"(2) [OF inb Recurse l refl refl False r "3.prems"(2,3)] show ?thesis .
      qed
    qed
  qed
qed

text \<open>
  C4. Whatever the state of the heap array: when \<^verbatim>\<open>malloc\<close> returns an address other
  than \<^verbatim>\<open>NULL\<close> for a request \<open>memsize\<close>, the address is the heap page tagged with the
  address \<open>t\<close> of an allocated leaf of size \<open>s\<close> with \<open>memsize \<le> s < 2 * memsize\<close>,
  found by the search or made by splitting. A request \<open>memsize \<le> 0\<close> or larger than
  the page is answered with \<^verbatim>\<open>NULL\<close> and the heap is unchanged.
\<close>

theorem malloc_block_size:
  "(malloc fuel p memsize = Some (Inr (va, p')) \<and> va \<noteq> 0 \<longrightarrow>
      (\<exists>j t. fitting_block (heap_array p') j t memsize \<and> 0 \<le> t \<and> va = (int MEM_PAGESIZE * 4) OR t))
   \<and> (memsize \<le> 0 \<or> memsize > int MEM_PAGESIZE \<longrightarrow> malloc fuel p memsize = Some (Inr (0, p)))"
proof (intro conjI impI)
  assume a: "malloc fuel p memsize = Some (Inr (va, p')) \<and> va \<noteq> 0"
  then have m: "malloc fuel p memsize = Some (Inr (va, p'))" and nz: "va \<noteq> 0" by simp_all
  from m nz have pos: "0 < memsize"
    by (auto simp: malloc_def split: if_splits)
  from m nz pos obtain b h1 where
    s: "MemoryNodeSearch fuel (heap_array p) (Some 1) memsize = Some (Inr (b, h1))"
    by (auto simp: malloc_def split: if_splits option.splits sum.splits)
  show "\<exists>j t. fitting_block (heap_array p') j t memsize \<and> 0 \<le> t \<and> va = (int MEM_PAGESIZE * 4) OR t"
  proof (cases "b \<ge> 0")
    case True
    with m nz pos s have e: "va = (int MEM_PAGESIZE * 4) OR b" "heap_array p' = h1"
      by (auto simp: malloc_def split: if_splits)
    from MemoryNodeSearch_fitting [OF s True pos] e True show ?thesis by auto
  next
    case False
    with m nz pos s obtain b' h2 where
      sp: "MemorySplitNode fuel h1 (Some 1) memsize = Some (Inr (b', h2))"
      by (auto simp: malloc_def split: if_splits option.splits sum.splits)
    with False m nz pos s have e: "0 \<le> b'" "va = (int MEM_PAGESIZE * 4) OR b'" "heap_array p' = h2"
      by (auto simp: malloc_def split: if_splits)
    from MemorySplitNode_fitting [OF sp e(1) pos] e show ?thesis by auto
  qed
next
  assume "memsize \<le> 0 \<or> memsize > int MEM_PAGESIZE"
  then show "malloc fuel p memsize = Some (Inr (0, p))"
    by (auto simp: malloc_def)
qed

lemma heap_within_nth:
  "heap_within h \<longleftrightarrow> (\<forall>j<length h. address (h ! j) + nsize (h ! j) \<le> int MEM_PAGESIZE)"
  by (simp add: heap_within_def list_all_length)

lemma create_left_length [simp]: "length (create_left h i l) = length h"
  by (simp add: create_left_def Let_def)

lemma create_right_length [simp]: "length (create_right h i r) = length h"
  by (simp add: create_right_def Let_def)

lemma set_children_length [simp]: "length (set_children h i l r) = length h"
  by (simp add: set_children_def Let_def)

lemma create_left_nsize:
  assumes "l < length h" and "j < length h"
  shows "nsize (create_left h i l ! j) = (if j = l then nsize (h ! i) sdiv 2 else nsize (h ! j))"
  using assms by (cases "i = l") (simp_all add: create_left_def Let_def nth_list_update)

lemma create_left_address:
  assumes "l < length h" and "j < length h"
  shows "address (create_left h i l ! j) = (if j = l then address (h ! i) else address (h ! j))"
  using assms by (cases "i = l") (simp_all add: create_left_def Let_def nth_list_update)

lemma create_left_nindex:
  assumes "j < length h"
  shows "nindex (create_left h i l ! j) = nindex (h ! j)"
  using assms by (cases "j = l") (simp_all add: create_left_def Let_def nth_list_update)

lemma create_right_nsize:
  assumes "r < length h" and "j < length h"
  shows "nsize (create_right h i r ! j) = (if j = r then nsize (h ! i) sdiv 2 else nsize (h ! j))"
  using assms by (cases "i = r") (simp_all add: create_right_def Let_def nth_list_update)

lemma create_right_address:
  assumes "r < length h" and "j < length h"
  shows "address (create_right h i r ! j)
       = (if j = r then address (h ! i) + nsize (h ! i) sdiv 2 else address (h ! j))"
  using assms by (cases "i = r") (simp_all add: create_right_def Let_def nth_list_update)

lemma set_children_nsize: "j < length h \<Longrightarrow> nsize (set_children h i l r ! j) = nsize (h ! j)"
  by (cases "j = i") (simp_all add: set_children_def Let_def nth_list_update)

lemma set_children_address: "j < length h \<Longrightarrow> address (set_children h i l r ! j) = address (h ! j)"
  by (cases "j = i") (simp_all add: set_children_def Let_def nth_list_update)

lemma make_children_length: "make_children h i = Inr h' \<Longrightarrow> length h' = length h"
  by (auto simp: make_children_def Let_def split: if_splits)

lemma half_le:
  fixes z :: int
  assumes "0 \<le> z"
  shows "z sdiv 2 \<le> z \<and> 0 \<le> z sdiv 2 \<and> z sdiv 2 + z sdiv 2 \<le> z"
proof -
  have "z sdiv 2 = z div 2" using assms by (rule sdiv_2_nonneg)
  moreover have "z div 2 \<le> z \<and> 0 \<le> z div 2 \<and> z div 2 + z div 2 \<le> z"
    using assms by presburger
  ultimately show ?thesis by simp
qed

lemma make_children_within:
  assumes w: "heap_within h" and i: "i < length h" and s: "0 \<le> nsize (h ! i)"
    and m: "make_children h i = Inr h'"
  shows "heap_within h'"
proof -
  define l where "l = nat (2 * nindex (h ! i))"
  define h6 where "h6 = create_left h i l"
  define r where "r = nat (2 * nindex (h6 ! i) + 1)"
  define g6 where "g6 = create_right h6 i r"
  from m have lb: "l < length h" and rb: "r < length h" and e: "h' = set_children g6 i l r"
    by (auto simp: make_children_def Let_def l_def r_def h6_def g6_def split: if_splits)
  have wi: "address (h ! i) + nsize (h ! i) \<le> int MEM_PAGESIZE"
    using w i by (simp add: heap_within_nth)
  note hs = half_le [OF s]
  have s6: "0 \<le> nsize (h6 ! i)"
    using hs s i lb by (auto simp: h6_def create_left_nsize)
  note hs6 = half_le [OF s6]
  have w6: "address (h6 ! j) + nsize (h6 ! j) \<le> int MEM_PAGESIZE" if "j < length h" for j
    using that w wi hs lb by (auto simp: h6_def create_left_nsize create_left_address heap_within_nth)
  have wg: "address (g6 ! j) + nsize (g6 ! j) \<le> int MEM_PAGESIZE" if "j < length h" for j
    using that w6 [of j] w6 [of i] i hs6 rb
    by (auto simp: g6_def h6_def create_right_nsize create_right_address)
  show ?thesis
    using wg by (simp add: e heap_within_nth set_children_nsize set_children_address g6_def h6_def)
qed

lemma heap_within_inuse:
  assumes "heap_within h"
  shows "heap_within (h[i := (h ! i)\<lparr>inuse := v\<rparr>])"
proof -
  have "address (h[i := (h ! i)\<lparr>inuse := v\<rparr>] ! j) + nsize (h[i := (h ! i)\<lparr>inuse := v\<rparr>] ! j)
          \<le> int MEM_PAGESIZE" if "j < length h" for j
    using that assms by (cases "j = i") (simp_all add: heap_within_nth)
  then show ?thesis by (simp add: heap_within_nth)
qed

lemma MemoryNodeSearch_within:
  assumes "MemoryNodeSearch fuel h nd memsize = Some (Inr (t, h'))" and "heap_within h"
  shows "heap_within h'"
  using assms
proof (induction fuel h nd memsize arbitrary: t h' rule: MemoryNodeSearch.induct)
  case (1 h nd memsize)
  then show ?case by simp
next
  case (2 fuel h memsize)
  then show ?case by simp
next
  case (3 fuel h i memsize)
  show ?case
  proof (cases "i \<ge> length h")
    case True
    with "3.prems" show ?thesis by simp
  next
    case inb: False
    show ?thesis
    proof (cases "left (h ! i) = None \<and> inuse (h ! i) = 0")
      case leaf: True
      with inb "3.prems" show ?thesis
        by (auto simp: heap_within_inuse split: if_splits)
    next
      case inner: False
      from inb inner "3.prems"(1) obtain t1 h1 where
        l: "MemoryNodeSearch fuel h (left (h ! i)) memsize = Some (Inr (t1, h1))"
        by (auto split: option.splits sum.splits)
      have w1: "heap_within h1" using "3.IH"(1) [OF inb inner l "3.prems"(2)] .
      show ?thesis
      proof (cases "t1 \<ge> 0")
        case True
        with inb inner l "3.prems"(1) have "h' = h1" by auto
        with w1 show ?thesis by simp
      next
        case False
        with inb inner l "3.prems"(1) have
          r: "MemoryNodeSearch fuel h1 (right (h1 ! i)) memsize = Some (Inr (t, h'))" by auto
        from "3.IH"(2) [OF inb inner l refl refl False r w1] show ?thesis .
      qed
    qed
  qed
qed

lemma split_here_within:
  assumes w: "heap_within h" and i: "i < length h" and p: "0 < memsize"
  shows "split_here h i memsize = Done t h' \<Longrightarrow> heap_within h'"
    and "split_here h i memsize = Recurse h' \<Longrightarrow> heap_within h'"
proof -
  assume "split_here h i memsize = Done t h'"
  then show "heap_within h'"
    using w by (auto simp: split_here_def heap_within_inuse split: if_splits sum.splits)
next
  assume a: "split_here h i memsize = Recurse h'"
  show "heap_within h'"
  proof (cases "h' = h")
    case True
    with w show ?thesis by simp
  next
    case False
    with a have m: "make_children h i = Inr h'" and s: "\<not> nsize (h ! i) sdiv 2 < memsize"
      by (auto simp: split_here_def split: if_splits sum.splits)
    have "0 \<le> nsize (h ! i)"
    proof (rule ccontr)
      assume "\<not> 0 \<le> nsize (h ! i)"
      then have "nsize (h ! i) sdiv 2 \<le> 0"
        by (simp add: signed_divide_int_def sgn_if)
      with s p show False by simp
    qed
    from make_children_within [OF w i this m] show ?thesis .
  qed
qed

lemma MemorySplitNode_within:
  assumes "MemorySplitNode fuel h nd memsize = Some (Inr (t, h'))" and "heap_within h" and "0 < memsize"
  shows "heap_within h'"
  using assms
proof (induction fuel h nd memsize arbitrary: t h' rule: MemorySplitNode.induct)
  case (1 h nd memsize)
  then show ?case by simp
next
  case (2 fuel h memsize)
  then show ?case by simp
next
  case (3 fuel h i memsize)
  show ?case
  proof (cases "i \<ge> length h")
    case True
    with "3.prems" show ?thesis by simp
  next
    case inb: False
    then have i: "i < length h" by simp
    show ?thesis
    proof (cases "split_here h i memsize")
      case (Failed e)
      with inb "3.prems" show ?thesis by simp
    next
      case (Done r hd)
      with inb "3.prems"(1) have "hd = h'" by simp
      with Done split_here_within(1) [OF "3.prems"(2) i "3.prems"(3)] show ?thesis by simp
    next
      case (Recurse hr)
      have wr: "heap_within hr"
        using Recurse split_here_within(2) [OF "3.prems"(2) i "3.prems"(3)] by simp
      from inb Recurse "3.prems"(1) obtain t1 h1 where
        l: "MemorySplitNode fuel hr (left (hr ! i)) memsize = Some (Inr (t1, h1))"
        by (auto split: option.splits sum.splits)
      have w1: "heap_within h1" using "3.IH"(1) [OF inb Recurse l wr "3.prems"(3)] .
      show ?thesis
      proof (cases "t1 \<ge> 0")
        case True
        with inb Recurse l "3.prems"(1) have "h' = h1" by auto
        with w1 show ?thesis by simp
      next
        case False
        with inb Recurse l "3.prems"(1) have
          r: "MemorySplitNode fuel h1 (right (h1 ! i)) memsize = Some (Inr (t, h'))" by auto
        from "3.IH"(2) [OF inb Recurse l refl refl False r w1 "3.prems"(3)] show ?thesis .
      qed
    qed
  qed
qed

lemma malloc_within:
  assumes "malloc fuel p memsize = Some (Inr (va, p'))" and "heap_within (heap_array p)"
  shows "heap_within (heap_array p')"
proof (cases "memsize \<le> 0 \<or> memsize > int MEM_PAGESIZE")
  case True
  with assms show ?thesis by (simp add: malloc_def)
next
  case False
  then have pos: "0 < memsize" by simp
  from assms(1) False obtain b h1 where
    s: "MemoryNodeSearch fuel (heap_array p) (Some 1) memsize = Some (Inr (b, h1))"
    by (auto simp: malloc_def split: if_splits option.splits sum.splits)
  have w1: "heap_within h1" using MemoryNodeSearch_within [OF s assms(2)] .
  show ?thesis
  proof (cases "b \<ge> 0")
    case True
    with assms(1) False s have "heap_array p' = h1"
      by (auto simp: malloc_def split: if_splits)
    with w1 show ?thesis by simp
  next
    case neg: False
    with assms(1) False s obtain b' h2 where
      sp: "MemorySplitNode fuel h1 (Some 1) memsize = Some (Inr (b', h2))"
      by (auto simp: malloc_def split: if_splits option.splits sum.splits)
    with neg assms(1) False s have "heap_array p' = h2"
      by (auto simp: malloc_def split: if_splits)
    with MemorySplitNode_within [OF sp w1 pos] show ?thesis by simp
  qed
qed

lemma heap_page_or:
  fixes t :: int
  assumes "0 \<le> t" and "t < 4096"
  shows "16384 OR t = 16384 + t"
proof -
  have "take_bit 12 t = t" using assms by (simp add: take_bit_int_eq_self)
  then have "\<not> bit t n" if "12 \<le> n" for n
    using that by (metis bit_take_bit_iff not_less)
  moreover have "bit (16384 :: int) n \<longleftrightarrow> n = 14" for n
  proof -
    have "(16384 :: int) = 2 ^ 14" by simp
    then show ?thesis by (simp only: bit_exp_iff) auto
  qed
  ultimately have "\<not> bit (16384 :: int) n \<or> \<not> bit t n" for n
    by (cases "n = 14") simp_all
  then show ?thesis by (simp add: disjunctive_add)
qed

lemma search_heap4: "MemoryNodeSearch 3 heap4 (Some 1) 1500 = Some (Inr (- 1, heap4))"
  by code_simp

lemma split_heap4: "MemorySplitNode 3 heap4 (Some 1) 1500 = Some (Inr (0, split_once))"
  by code_simp

lemma heap_array_heap_pcb: "heap_array (heap_pcb h) = h"
  by (simp add: heap_pcb_def)

lemma malloc_heap4:
  "malloc 3 (heap_pcb heap4) 1500 = Some (Inr (16384, heap_pcb split_once))"
  unfolding malloc_def heap_array_heap_pcb search_heap4
  by (simp add: MEM_PAGESIZE_def heap_pcb_def split_heap4 [unfolded One_nat_def])

lemma heap_within_heap4: "heap_within (heap_array (heap_pcb heap4))"
  unfolding heap_array_heap_pcb by code_simp

text \<open>
  C10. In a heap whose nodes all end inside the region (true of the fresh heap and kept
  by \<^verbatim>\<open>malloc\<close> and \<^verbatim>\<open>mfree\<close>, lemmas \<open>malloc_within\<close> and \<open>mfree_within\<close>),
  every address other than \<^verbatim>\<open>NULL\<close> that \<^verbatim>\<open>malloc\<close> returns lies in
  \<open>[4 * MEM_PAGESIZE, 5 * MEM_PAGESIZE)\<close> and passes the guard of \<^verbatim>\<open>mfree\<close>.
\<close>

theorem malloc_address_in_heap_page:
  assumes "heap_within (heap_array p)" and "malloc fuel p memsize = Some (Inr (va, p'))" and "va \<noteq> 0"
  shows "4 * int MEM_PAGESIZE \<le> va \<and> va < 5 * int MEM_PAGESIZE \<and> \<not> mfree_rejects va
       \<and> heap_within (heap_array p')"
proof -
  have w: "heap_within (heap_array p')" using assms(2,1) by (rule malloc_within)
  from malloc_block_size [of fuel p memsize va p'] assms(2,3) obtain j t where
    f: "fitting_block (heap_array p') j t memsize" and t: "0 \<le> t" and v: "va = (int MEM_PAGESIZE * 4) OR t"
    by blast
  from assms(2,3) have pos: "0 < memsize"
    by (auto simp: malloc_def split: if_splits)
  from f w have "t + nsize (heap_array p' ! j) \<le> 4096" and "memsize \<le> nsize (heap_array p' ! j)"
    by (auto simp: fitting_block_def heap_within_nth MEM_PAGESIZE_def)
  with pos have "t < 4096" by simp
  with t v have "va = 16384 + t" by (simp add: MEM_PAGESIZE_def heap_page_or)
  with t \<open>t < 4096\<close> w show ?thesis
    by (simp add: MEM_PAGESIZE_def mfree_rejects_def)
qed

theorem malloc_address_in_heap_page_witness:
  "heap_within (heap_array (heap_pcb heap4))
   \<and> malloc 3 (heap_pcb heap4) 1500 = Some (Inr (16384, heap_pcb split_once))
   \<and> (16384 :: int) \<noteq> 0
   \<and> 4 * int MEM_PAGESIZE \<le> 16384 \<and> 16384 < 5 * int MEM_PAGESIZE \<and> \<not> mfree_rejects 16384
   \<and> heap_within (heap_array (heap_pcb split_once))"
  using malloc_address_in_heap_page [OF heap_within_heap4 malloc_heap4]
    heap_within_heap4 malloc_heap4 by simp

theorem malloc_block_size_witness:
  "malloc 3 (heap_pcb heap4) 1500 = Some (Inr (16384, heap_pcb split_once))
   \<and> (16384 :: int) \<noteq> 0
   \<and> (\<exists>j t. fitting_block (heap_array (heap_pcb split_once)) j t 1500
          \<and> 0 \<le> t \<and> 16384 = (int MEM_PAGESIZE * 4) OR t)
   \<and> ((5000 :: int) \<le> 0 \<or> 5000 > int MEM_PAGESIZE)
   \<and> malloc 3 (heap_pcb heap4) 5000 = Some (Inr (0, heap_pcb heap4))"
proof -
  have a: "(5000 :: int) \<le> 0 \<or> 5000 > int MEM_PAGESIZE" by (simp add: MEM_PAGESIZE_def)
  show ?thesis
    using malloc_block_size [of 3 "heap_pcb heap4" 1500 16384 "heap_pcb split_once"]
      malloc_block_size [of 3 "heap_pcb heap4" 5000] malloc_heap4 a
    by simp
qed

lemma heap_within_cleared:
  assumes "heap_within h"
  shows "heap_within (h[i := (h ! i)\<lparr>inuse := 0, left := None, right := None\<rparr>])"
proof -
  let ?h = "h[i := (h ! i)\<lparr>inuse := 0, left := None, right := None\<rparr>]"
  have "address (?h ! j) + nsize (?h ! j) \<le> int MEM_PAGESIZE" if "j < length h" for j
    using that assms by (cases "j = i") (simp_all add: heap_within_nth)
  then show ?thesis by (simp add: heap_within_nth)
qed

lemma MemoryCoalescing_within:
  assumes "MemoryCoalescing fuel h nd = Some (Inr h')" and "heap_within h"
  shows "heap_within h'"
  using assms
proof (induction fuel h nd arbitrary: h' rule: MemoryCoalescing.induct)
  case (1 h nd)
  then show ?case by simp
next
  case (2 fuel h)
  then show ?case by simp
next
  case (3 fuel h i)
  define h1 where "h1 = h[i := (h ! i)\<lparr>inuse := 0, left := None, right := None\<rparr>]"
  have w1: "heap_within h1" unfolding h1_def using "3.prems"(2) by (rule heap_within_cleared)
  show ?case
  proof (cases "h' = h1")
    case True
    with w1 show ?thesis by simp
  next
    case False
    with "3.prems"(1) obtain pa where inb: "\<not> length h \<le> i" and pa: "parent (h1 ! i) = Some pa"
      and pb: "\<not> length h1 \<le> pa" and rec: "MemoryCoalescing fuel h1 (Some pa) = Some (Inr h')"
      by (auto simp: h1_def [symmetric] Let_def split: if_splits option.splits)
    show ?thesis
    proof (cases "left (h1 ! pa) = Some i")
      case True
      with "3.prems"(1) False inb pa pb obtain r where r: "right (h1 ! pa) = Some r"
          "\<not> length h1 \<le> r" "inuse (h1 ! r) = 0"
        by (auto simp: h1_def [symmetric] Let_def split: if_splits option.splits)
      from "3.IH"(1) [OF inb h1_def pa pb True r rec w1] show ?thesis .
    next
      case nl: False
      with "3.prems"(1) False inb pa pb obtain l where l: "left (h1 ! pa) = Some l"
          "\<not> length h1 \<le> l" "inuse (h1 ! l) = 0"
        by (auto simp: h1_def [symmetric] Let_def split: if_splits option.splits)
      from "3.IH"(2) [OF inb h1_def pa pb nl l rec w1] show ?thesis .
    qed
  qed
qed

lemma mfree_within:
  assumes "mfree K fuel p ptr = Some (Inr (r, p'))" and "heap_within (heap_array p)"
  shows "heap_within (heap_array p')"
proof (cases "mfree_rejects ptr")
  case True
  with assms show ?thesis by (simp add: mfree_def)
next
  case False
  with assms(1) obtain i h' where
    "MemoryCoalescing fuel (heap_array p) (Some i) = Some (Inr h')" "heap_array p' = h'"
    by (auto simp: mfree_def Let_def split: option.splits sum.splits)
  with MemoryCoalescing_within assms(2) show ?thesis by metis
qed

lemma find_node_unmatched:
  "\<forall>i\<in>set js. address (h ! i) \<noteq> a \<Longrightarrow> find_node h a js nd = nd"
  by (induction js arbitrary: nd) simp_all

lemma mfree_unmatched:
  assumes "\<not> mfree_rejects ptr"
    and "\<forall>i\<in>{1 ..< length (heap_array p)}. address (heap_array p ! i) \<noteq> ptr AND MEM_PAGE_OFFSET_MASK"
  shows "mfree K fuel p ptr = Some (Inl Uninitialised)"
proof -
  have "find_node (heap_array p) (ptr AND MEM_PAGE_OFFSET_MASK) [1 ..< length (heap_array p)] None = None"
    using assms(2) by (intro find_node_unmatched) simp
  with assms(1) show ?thesis by (simp add: mfree_def Let_def)
qed

text \<open>
  C3. The pointer \<open>16484\<close> lies in the heap page and its offset 100 is the address of no
  node of the fresh heap. \<^verbatim>\<open>mfree\<close> does not return the failure value: its scan
  never assigns \<^verbatim>\<open>node\<close>, which is then passed to \<^verbatim>\<open>MemoryCoalescing\<close> and
  read.
\<close>

theorem mfree_unmatched_pointer_undefined:
  "\<not> mfree_rejects 16484
   \<and> list_all (\<lambda>n. address n \<noteq> 16484 AND MEM_PAGE_OFFSET_MASK) heap4
   \<and> mfree dlx 3 (heap_pcb heap4) 16484 = Some (Inl Uninitialised)"
proof -
  have a: "\<not> mfree_rejects 16484"
    by (simp add: mfree_rejects_def MEM_PAGESIZE_def)
  have b: "list_all (\<lambda>n. address n \<noteq> 16484 AND MEM_PAGE_OFFSET_MASK) heap4"
    by code_simp
  then have "\<forall>i\<in>{1 ..< length (heap_array (heap_pcb heap4))}.
      address (heap_array (heap_pcb heap4) ! i) \<noteq> 16484 AND MEM_PAGE_OFFSET_MASK"
    by (simp add: heap_array_heap_pcb list_all_length)
  with a have "mfree dlx 3 (heap_pcb heap4) 16484 = Some (Inl Uninitialised)"
    by (rule mfree_unmatched)
  with a b show ?thesis by simp
qed

text \<open>
  C5. On a fresh heap of order 2, \<^verbatim>\<open>malloc(600)\<close> splits the root and node 2 and
  allocates node 4; \<^verbatim>\<open>malloc(1500)\<close> allocates node 3, the right half. Freeing node 3
  finds its sibling, node 2, with \<^verbatim>\<open>inuse == 0\<close> (it is split), and merges: the root
  loses its children and is a leaf again, while node 2 still has its children and node 4
  is still allocated.
\<close>

theorem mfree_merges_over_split_sibling:
  "heap_view (heap_calls dlx 4 (heap_pcb heap8) [Malloc 600, Malloc 1500, Mfree 18432])
     = Some (Inr ([16384, 18432, 2048],
         [None, None, Some 4, None, None, None, None, None],
         [0, 0, 0, 0, 1, 0, 0, 0]))
   \<and> heap_view (heap_calls dlx 4 (heap_pcb heap8) [Malloc 600, Malloc 1500])
     = Some (Inr ([16384, 18432],
         [None, Some 2, Some 4, None, None, None, None, None],
         [0, 0, 0, 1, 1, 0, 0, 0]))"
  by code_simp

text \<open>After that, a request for 4000 bytes is given the root: address 0 again.\<close>

lemma malloc_after_merge_overlaps:
  "heap_view (heap_calls dlx 4 (heap_pcb heap8) [Malloc 600, Malloc 1500, Mfree 18432, Malloc 4000])
     = Some (Inr ([16384, 18432, 2048, 16384],
         [None, None, Some 4, None, None, None, None, None],
         [0, 1, 0, 0, 1, 0, 0, 0]))"
  by code_simp

text \<open>
  The two cases of one level of \<^verbatim>\<open>MemoryCoalescing\<close> for a left child (the right child
  is symmetric): with the sibling in use the parent keeps its children; with the
  sibling's \<^verbatim>\<open>inuse\<close> clear the function goes on with the parent, which it makes a leaf.
\<close>

lemma MemoryCoalescing_sibling_allocated:
  assumes "i < length h" and "parent (h ! i) = Some pa" and "pa < length h" and "pa \<noteq> i"
    and "left (h ! pa) = Some i" and "right (h ! pa) = Some r" and "r < length h" and "r \<noteq> i"
    and "inuse (h ! r) \<noteq> 0"
  shows "MemoryCoalescing (Suc fuel) h (Some i)
       = Some (Inr (h[i := (h ! i)\<lparr>inuse := 0, left := None, right := None\<rparr>]))"
  using assms by (simp add: Let_def)

lemma MemoryCoalescing_sibling_clear:
  assumes "i < length h" and "parent (h ! i) = Some pa" and "pa < length h" and "pa \<noteq> i"
    and "left (h ! pa) = Some i" and "right (h ! pa) = Some r" and "r < length h" and "r \<noteq> i"
    and "inuse (h ! r) = 0"
  shows "MemoryCoalescing (Suc fuel) h (Some i)
       = MemoryCoalescing fuel (h[i := (h ! i)\<lparr>inuse := 0, left := None, right := None\<rparr>]) (Some pa)"
  using assms by (simp add: Let_def)

subsection \<open>Conservation of frames\<close>

lemma sdiv_32_nonneg: "0 \<le> x \<Longrightarrow> x sdiv 32 = x div (32::int)"
  by (simp add: signed_divide_int_def sgn_if)

lemma smod_32_nonneg: "0 \<le> x \<Longrightarrow> x smod 32 = x mod (32::int)"
  by (simp add: signed_modulo_int_def sgn_if)

lemma bit_set_iff:
  fixes w :: uint32
  assumes "b < 32"
  shows "bit ((w AND invert (push_bit b 1)) OR push_bit b 1) k \<longleftrightarrow> bit w k \<or> k = b"
  using assms by (auto simp: invert_eq_not bit_simps dest: bit_imp_le_length)

lemma MemoryEditFreemap_set:
  assumes a: "0 \<le> a" "a < 32 * int (length (freemap m))" and len: "length (freemap m) \<le> 16"
  shows "\<exists>m'. MemoryEditFreemap m a 1 = Inr m'
     \<and> (\<forall>p. frame_free m' p \<longleftrightarrow> frame_free m p \<or> p = nat a)
     \<and> length (freemap m') = length (freemap m)
     \<and> freemapmax m' = freemapmax m \<and> pagestart m' = pagestart m \<and> nfreepages m' = nfreepages m"
proof -
  define j where "j = nat a div 32"
  define b where "b = nat a mod 32"
  have j: "j < length (freemap m)" using a by (simp add: j_def)
  have b: "b < 32" by (simp add: b_def)
  have "a div 32 = int j" "a mod 32 = int b"
    using a(1) by (simp_all add: j_def b_def zdiv_int zmod_int)
  then have s: "a sdiv 32 = int j" "a smod 32 = int b"
    using a(1) by (simp_all add: sdiv_32_nonneg smod_32_nonneg)
  have uj: "unat (word_of_nat j :: uint32) = j"
    using j len by (simp add: unat_of_nat)
  have ub: "unat (word_of_nat b :: uint32) = b"
    using b by (simp add: unat_of_nat)
  define m' where "m' = m\<lparr>freemap := (freemap m)[j :=
                ((freemap m ! j) AND invert (push_bit b 1)) OR push_bit b 1]\<rparr>"
  have e: "MemoryEditFreemap m a 1 = Inr m'"
    using j b by (simp add: MemoryEditFreemap_def s uj ub m'_def Let_def del: push_bit_of_1)
  have f: "frame_free m' p \<longleftrightarrow> frame_free m p \<or> p = nat a" for p
  proof (cases "p div 32 = j")
    case True
    have "p = nat a \<longleftrightarrow> p mod 32 = b"
      using True by (metis b_def j_def div_mult_mod_eq)
    with True j b show ?thesis
      by (simp add: frame_free_def m'_def bit_set_iff del: push_bit_of_1)
  next
    case False
    then have "p \<noteq> nat a" by (auto simp: j_def)
    with False show ?thesis by (simp add: frame_free_def m'_def)
  qed
  show ?thesis using e f by (auto simp: m'_def)
qed

lemma finite_free: "finite {p. frame_free m p}"
proof -
  have "{p. frame_free m p} \<subseteq> {..< 32 * length (freemap m)}"
    by (auto simp: frame_free_def)
  then show ?thesis by (rule finite_subset) simp
qed

lemma alloc_step:
  assumes inv: "frames_inv m A maxpage"
  shows "\<exists>r m'. MemoryAllocPage K m = Some (Inr (r, m'))
     \<and> frames_inv m' (if nfreepages m = 0 then A else insert r A) maxpage
     \<and> pagestart m' = pagestart m"
proof (cases "nfreepages m = 0")
  case True
  with inv show ?thesis by (simp add: MemoryAllocPage_def)
next
  case False
  with inv have "card {p. frame_free m p} \<noteq> 0" by (simp add: frames_inv_def)
  then obtain p where p: "frame_free m p" by (metis card.empty empty_Collect_eq)
  with inv have "int p < 32 * freemapmax m" by (auto simp: frames_inv_def)
  then have s: "int (p div 32) < freemapmax m" by (simp add: zdiv_int)
  define q where "q = (LEAST r. frame_free m r)"
  define m' where "m' = m\<lparr>freemap := (freemap m)[q div 32 := (freemap m ! (q div 32)) AND invert (push_bit (q mod 32) 1)],
             nfreepages := nfreepages m - 1\<rparr>"
  have r: "MemoryAllocPage K m = Some (Inr (int q, m'))"
    unfolding q_def m'_def using False p s by (rule MemoryAllocPage_success)
  have fq: "frame_free m q" unfolding q_def using p by (rule frame_free_least(1))
  then have j: "q div 32 < length (freemap m)" by (simp add: frame_free_def)
  have f: "frame_free m' x \<longleftrightarrow> frame_free m x \<and> x \<noteq> q" for x
  proof (cases "x div 32 = q div 32")
    case True
    have "x = q \<longleftrightarrow> x mod 32 = q mod 32"
      using True by (metis div_mult_mod_eq)
    with True j show ?thesis
      by (simp add: frame_free_def m'_def bit_clear_iff del: push_bit_of_1)
  next
    case False
    then have "x \<noteq> q" by auto
    with False show ?thesis by (simp add: frame_free_def m'_def)
  qed
  then have F: "{x. frame_free m' x} = {x. frame_free m x} - {q}" by auto
  have c: "int (card {x. frame_free m' x}) = int (card {x. frame_free m x}) - 1"
  proof -
    have "0 < card {x. frame_free m x}"
      using \<open>card {p. frame_free m p} \<noteq> 0\<close> by simp
    moreover have "card ({x. frame_free m x} - {q}) = card {x. frame_free m x} - 1"
      using fq by (simp add: card_Diff_singleton)
    ultimately show ?thesis unfolding F by linarith
  qed
  have fields: "length (freemap m') = length (freemap m)" "pagestart m' = pagestart m"
      "freemapmax m' = freemapmax m" "nfreepages m' = nfreepages m - 1"
    by (simp_all add: m'_def)
  have "frames_inv m' (insert (int q) A) maxpage"
    unfolding frames_inv_def fields f c [unfolded f]
    using inv fq by (auto simp: frames_inv_def)
  with r False fields(2) show ?thesis by auto
qed

lemma sint_small:
  fixes w :: uint32
  assumes "uint w < 2 ^ 31"
  shows "sint w = uint w"
proof -
  have "signed_take_bit 31 (uint w) = uint w"
  proof (rule signed_take_bit_int_eq_self)
    have "- (2 ^ 31) \<le> (0::int)" by simp
    also have "0 \<le> uint w" by simp
    finally show "- (2 ^ 31) \<le> uint w" .
    show "uint w < 2 ^ 31" using assms .
  qed
  then show ?thesis by (simp add: sint_uint)
qed

lemma free_step:
  assumes inv: "frames_inv m A maxpage" and a: "uint pg \<in> A"
  shows "\<exists>m'. MemoryFreePage m pg = Inr m' \<and> frames_inv m' (A - {uint pg}) maxpage
     \<and> pagestart m' = pagestart m"
proof -
  from inv a have b: "uint (pagestart m) \<le> uint pg" "uint pg < maxpage" "\<not> frame_free m (nat (uint pg))"
    and mp: "maxpage \<le> 512" and len: "length (freemap m) = 16"
    by (auto simp: frames_inv_def)
  have s: "sint pg = uint pg" using b(2) mp by (intro sint_small) simp
  have r: "0 \<le> uint pg" "uint pg < 32 * int (length (freemap m))"
    using b(2) mp len by simp_all
  from MemoryEditFreemap_set [OF r] len obtain m1 where
    e: "MemoryEditFreemap m (uint pg) 1 = Inr m1"
    and f: "\<And>p. frame_free m1 p \<longleftrightarrow> frame_free m p \<or> p = nat (uint pg)"
    and fields: "length (freemap m1) = length (freemap m)" "freemapmax m1 = freemapmax m"
       "pagestart m1 = pagestart m" "nfreepages m1 = nfreepages m"
    by auto
  define m' where "m' = m1\<lparr>nfreepages := nfreepages m1 + 1\<rparr>"
  have res: "MemoryFreePage m pg = Inr m'"
    by (simp add: MemoryFreePage_def s e m'_def)
  have f': "frame_free m' p \<longleftrightarrow> frame_free m p \<or> p = nat (uint pg)" for p
    using f [of p] by (simp add: m'_def frame_free_def)
  have fields': "length (freemap m') = length (freemap m)" "freemapmax m' = freemapmax m"
       "pagestart m' = pagestart m" "nfreepages m' = nfreepages m + 1"
    using fields by (simp_all add: m'_def)
  have F: "{x. frame_free m' x} = insert (nat (uint pg)) {x. frame_free m x}"
    using f' by auto
  have c: "int (card {x. frame_free m' x}) = int (card {x. frame_free m x}) + 1"
    unfolding F using b(3) finite_free [of m] by simp
  have other: "\<not> frame_free m' (nat x)" if "x \<in> A" "x \<noteq> uint pg" for x
  proof -
    from inv that(1) have "0 \<le> x" "\<not> frame_free m (nat x)"
      by (auto simp: frames_inv_def intro: order_trans [OF uint_ge_0])
    moreover have "nat x \<noteq> nat (uint pg)"
      using \<open>0 \<le> x\<close> that(2) by (simp only: eq_nat_nat_iff [OF _ uint_ge_0]) simp
    ultimately show ?thesis by (simp add: f')
  qed
  have "frames_inv m' (A - {uint pg}) maxpage"
    unfolding frames_inv_def fields' c
    using inv b other by (auto simp: frames_inv_def f')
  with res fields'(3) show ?thesis by auto
qed

lemma frame_free_nfreepages [simp]: "frame_free (m\<lparr>nfreepages := n\<rparr>) p = frame_free m p"
  by (simp add: frame_free_def)

lemma clear_words_zero:
  assumes "\<forall>x\<in>set (freemap m). x = 0" and "\<forall>j\<in>set js. j < length (freemap m)"
  shows "clear_words js m = Inr m"
  using assms
proof (induction js)
  case Nil
  then show ?case by simp
next
  case (Cons j js)
  then have "freemap m ! j = 0" by simp
  then have "(freemap m)[j := 0] = freemap m" by (metis list_update_id)
  with Cons show ?case by simp
qed

lemma mark_free_sets:
  assumes "\<forall>i\<in>set js. 0 \<le> i \<and> i < 32 * int (length (freemap m))" and "length (freemap m) \<le> 16"
  shows "\<exists>m'. mark_free js m = Inr m'
     \<and> (\<forall>p. frame_free m' p \<longleftrightarrow> frame_free m p \<or> int p \<in> set js)
     \<and> nfreepages m' = nfreepages m + int (length js)
     \<and> length (freemap m') = length (freemap m)
     \<and> freemapmax m' = freemapmax m \<and> pagestart m' = pagestart m"
  using assms
proof (induction js arbitrary: m)
  case Nil
  then show ?case by simp
next
  case (Cons i js)
  let ?m = "m\<lparr>nfreepages := nfreepages m + 1\<rparr>"
  have r: "0 \<le> i" "i < 32 * int (length (freemap ?m))" and l: "length (freemap ?m) \<le> 16"
    using Cons.prems by simp_all
  from MemoryEditFreemap_set [OF r l] obtain m1 where
    e: "MemoryEditFreemap ?m i 1 = Inr m1"
    and f: "\<And>p. frame_free m1 p \<longleftrightarrow> frame_free m p \<or> p = nat i"
    and fields: "length (freemap m1) = length (freemap m)" "freemapmax m1 = freemapmax m"
       "pagestart m1 = pagestart m" "nfreepages m1 = nfreepages m + 1"
    by auto
  have "\<forall>i\<in>set js. 0 \<le> i \<and> i < 32 * int (length (freemap m1))" "length (freemap m1) \<le> 16"
    using Cons.prems fields by simp_all
  from Cons.IH [OF this] obtain m' where
    m': "mark_free js m1 = Inr m'"
    and f': "\<And>p. frame_free m' p \<longleftrightarrow> frame_free m1 p \<or> int p \<in> set js"
    and fields': "nfreepages m' = nfreepages m1 + int (length js)"
       "length (freemap m') = length (freemap m1)"
       "freemapmax m' = freemapmax m1" "pagestart m' = pagestart m1"
    by auto
  have eq: "p = nat i \<longleftrightarrow> int p = i" for p using r(1) by auto
  have "mark_free (i # js) m = Inr m'" using e m' by simp
  moreover have "\<forall>p. frame_free m' p \<longleftrightarrow> frame_free m p \<or> int p \<in> set (i # js)"
    using f f' eq by auto
  ultimately show ?case using fields fields' by auto
qed

lemma sdiv_nonneg: "0 \<le> x \<Longrightarrow> 0 < y \<Longrightarrow> x sdiv y = x div (y::int)"
  by (simp add: signed_divide_int_def sgn_if)

lemma card_frames_between:
  assumes "0 \<le> a"
  shows "card {p::nat. a \<le> int p \<and> int p \<le> b} = length [a..b]"
proof -
  have "{p::nat. a \<le> int p \<and> int p \<le> b} = nat ` {a..b}"
  proof (intro set_eqI iffI)
    fix p assume "p \<in> {p::nat. a \<le> int p \<and> int p \<le> b}"
    then have "int p \<in> {a..b}" by simp
    then have "nat (int p) \<in> nat ` {a..b}" by (rule imageI)
    then show "p \<in> nat ` {a..b}" by simp
  next
    fix p assume "p \<in> nat ` {a..b}"
    then show "p \<in> {p::nat. a \<le> int p \<and> int p \<le> b}" using assms by auto
  qed
  moreover have "inj_on nat {a..b}" using assms by (auto simp: inj_on_def)
  ultimately have "card {p::nat. a \<le> int p \<and> int p \<le> b} = card {a..b}"
    by (simp add: card_image)
  then show ?thesis by simp
qed

lemma frame_free_boot:
  assumes "\<forall>x\<in>set (freemap m). x = 0"
  shows "\<not> frame_free m p"
proof
  assume f: "frame_free m p"
  then have "freemap m ! (p div 32) \<in> set (freemap m)" by (simp add: frame_free_def)
  with assms have "freemap m ! (p div 32) = 0" by blast
  with f show False by (simp add: frame_free_def)
qed

lemma MemoryModuleInit_inv:
  assumes "0 \<le> memsize" and "memsize \<le> 0x200000"
  shows "\<exists>m0. MemoryModuleInit boot_kmem memsize lastosaddress = Inr m0
     \<and> frames_inv m0 {} (memsize sdiv int MEM_PAGESIZE)"
proof -
  define maxpage where "maxpage = memsize sdiv int MEM_PAGESIZE"
  define ospages where "ospages = ((word_of_int lastosaddress :: uint32) AND 0x1FFFFC) div word_of_nat MEM_PAGESIZE"
  define fmax where "fmax = (maxpage + 31) sdiv 32"
  define m1 where "m1 = boot_kmem\<lparr>pagestart := ospages + 1, freemapmax := fmax, nfreepages := 0\<rparr>"
  have mp: "maxpage = memsize div 4096"
    using assms(1) by (simp add: maxpage_def MEM_PAGESIZE_def sdiv_nonneg)
  then have mp0: "0 \<le> maxpage" and mp512: "maxpage \<le> 512" using assms by simp_all
  have fm: "fmax = (maxpage + 31) div 32" using mp0 by (simp add: fmax_def sdiv_nonneg)
  then have fm16: "fmax \<le> 16" and fm0: "0 \<le> fmax" and cover: "maxpage \<le> 32 * fmax"
    using mp0 mp512 by simp_all
  have z: "\<forall>x\<in>set (freemap m1). x = 0" and len: "length (freemap m1) = 16"
    by (simp_all add: m1_def boot_kmem_def)
  have c: "clear_words [0 ..< nat (freemapmax m1)] m1 = Inr m1"
  proof (rule clear_words_zero [OF z], intro ballI)
    fix j assume "j \<in> set [0 ..< nat (freemapmax m1)]"
    then have "int j < fmax" by (simp add: m1_def)
    with fm16 len show "j < length (freemap m1)" by simp
  qed
  have "\<forall>i\<in>set [uint (pagestart m1) .. maxpage - 1]. 0 \<le> i \<and> i < 32 * int (length (freemap m1))"
    using mp512 len by (auto intro: order_trans [OF uint_ge_0])
  from mark_free_sets [OF this] len obtain m0 where
    mf: "mark_free [uint (pagestart m1) .. maxpage - 1] m1 = Inr m0"
    and f: "\<And>p. frame_free m0 p \<longleftrightarrow> frame_free m1 p \<or> int p \<in> set [uint (pagestart m1) .. maxpage - 1]"
    and fields: "nfreepages m0 = nfreepages m1 + int (length [uint (pagestart m1) .. maxpage - 1])"
       "length (freemap m0) = length (freemap m1)"
       "freemapmax m0 = freemapmax m1" "pagestart m0 = pagestart m1"
    by auto
  have init: "MemoryModuleInit boot_kmem memsize lastosaddress = Inr m0"
    unfolding MemoryModuleInit_def Let_def maxpage_def [symmetric] ospages_def [symmetric]
      fmax_def [symmetric] m1_def [symmetric]
    using c mf by simp
  have f0: "frame_free m0 p \<longleftrightarrow> uint (pagestart m0) \<le> int p \<and> int p \<le> maxpage - 1" for p
    using f [of p] frame_free_boot [OF z, of p] fields(4) by simp
  have "card {p. frame_free m0 p} = length [uint (pagestart m0) .. maxpage - 1]"
    unfolding f0 by (rule card_frames_between) simp
  then have n: "nfreepages m0 = int (card {p. frame_free m0 p})"
    using fields by (simp add: m1_def)
  have "frames_inv m0 {} maxpage"
    unfolding frames_inv_def
  proof (intro conjI)
    show "length (freemap m0) = 16" using fields(2) len by simp
    show "maxpage \<le> 512" by (rule mp512)
    show "maxpage \<le> 32 * freemapmax m0" using cover fields(3) by (simp add: m1_def)
    show "\<forall>p. frame_free m0 p \<longrightarrow> uint (pagestart m0) \<le> int p \<and> int p < maxpage"
      by (simp add: f0)
    show "nfreepages m0 = int (card {p. frame_free m0 p})" by (rule n)
    show "\<forall>a\<in>{}. uint (pagestart m0) \<le> a \<and> a < maxpage \<and> \<not> frame_free m0 (nat a)" by simp
  qed
  with init show ?thesis by (auto simp: maxpage_def)
qed

lemma finite_usable: "finite (usable_frames start maxpage)"
proof -
  have "usable_frames start maxpage \<subseteq> {..< nat maxpage}"
    by (auto simp: usable_frames_def)
  then show ?thesis by (rule finite_subset) simp
qed

lemma frames_inv_conserved:
  assumes "frames_inv m A maxpage"
  shows "conserved m (pagestart m) maxpage"
proof -
  let ?U = "usable_frames (pagestart m) maxpage" and ?F = "{p. frame_free m p}"
  have sub: "?F \<subseteq> ?U" using assms by (auto simp: frames_inv_def usable_frames_def)
  have "{p \<in> ?U. \<not> frame_free m p} = ?U - ?F" by auto
  then have "allocated_count m (pagestart m) maxpage = card (?U - ?F)"
    by (simp add: allocated_count_def)
  also have "\<dots> = card ?U - card ?F"
    using sub finite_free by (intro card_Diff_subset) auto
  finally have a: "allocated_count m (pagestart m) maxpage = card ?U - card ?F" .
  have "card ?F \<le> card ?U" using sub finite_usable by (intro card_mono)
  with a assms show ?thesis by (simp add: conserved_def frames_inv_def)
qed

lemma run_calls_inv:
  assumes "frames_inv m A maxpage" and "run_calls K m A cs \<noteq> Misuse" and "k \<le> length cs"
  shows "\<exists>m' A'. run_calls K m A (take k cs) = Finished m' \<and> frames_inv m' A' maxpage
     \<and> pagestart m' = pagestart m"
  using assms
proof (induction cs arbitrary: m A k)
  case Nil
  then show ?case by auto
next
  case (Cons c cs)
  show ?case
  proof (cases k)
    case 0
    with Cons.prems(1) show ?thesis by auto
  next
    case (Suc k')
    with Cons.prems(3) have k': "k' \<le> length cs" by simp
    show ?thesis
    proof (cases c)
      case Alloc
      from alloc_step [OF Cons.prems(1), of K] obtain r m1 where
        a: "MemoryAllocPage K m = Some (Inr (r, m1))"
        and i: "frames_inv m1 (if nfreepages m = 0 then A else insert r A) maxpage"
        and p: "pagestart m1 = pagestart m"
        by blast
      from Cons.prems(2) Alloc a
      have "run_calls K m1 (if nfreepages m = 0 then A else insert r A) cs \<noteq> Misuse" by simp
      from Cons.IH [OF i this k'] Alloc a p Suc show ?thesis by simp
    next
      case (Free pg)
      with Cons.prems(2) have mem: "uint pg \<in> A" by (auto split: if_splits)
      from free_step [OF Cons.prems(1) mem] obtain m1 where
        a: "MemoryFreePage m pg = Inr m1"
        and i: "frames_inv m1 (A - {uint pg}) maxpage"
        and p: "pagestart m1 = pagestart m"
        by blast
      from Cons.prems(2) Free a mem
      have "run_calls K m1 (A - {uint pg}) cs \<noteq> Misuse" by simp
      from Cons.IH [OF i this k'] Free a p mem Suc show ?thesis by simp
    qed
  qed
qed

text \<open>
  C7. For a memory of at most 2 MB (the 512 frames the bitmap has room for):
  \<^verbatim>\<open>MemoryModuleInit\<close> returns a state from which every sequence of allocate and free
  calls that frees only frames handed out and not yet returned runs to its end, no
  allocation failing to return, and after every call (after the first \<open>k\<close> calls, for
  every \<open>k\<close>) the free count plus the number of allocated usable frames is the number of
  usable frames.
\<close>

theorem frame_conservation:
  assumes "0 \<le> memsize" and "memsize \<le> 0x200000"
  shows "\<exists>m0. MemoryModuleInit boot_kmem memsize lastosaddress = Inr m0
     \<and> (\<forall>cs k. run_calls K m0 {} cs \<noteq> Misuse \<longrightarrow> k \<le> length cs \<longrightarrow>
           (\<exists>m. run_calls K m0 {} (take k cs) = Finished m
              \<and> conserved m (pagestart m0) (memsize sdiv int MEM_PAGESIZE)))"
proof -
  from MemoryModuleInit_inv [OF assms, of lastosaddress] obtain m0 where
    init: "MemoryModuleInit boot_kmem memsize lastosaddress = Inr m0"
    and inv: "frames_inv m0 {} (memsize sdiv int MEM_PAGESIZE)"
    by blast
  have "\<exists>m. run_calls K m0 {} (take k cs) = Finished m
              \<and> conserved m (pagestart m0) (memsize sdiv int MEM_PAGESIZE)"
    if "run_calls K m0 {} cs \<noteq> Misuse" "k \<le> length cs" for cs k
  proof -
    from run_calls_inv [OF inv that] obtain m A' where
      r: "run_calls K m0 {} (take k cs) = Finished m"
      and i: "frames_inv m A' (memsize sdiv int MEM_PAGESIZE)"
      and p: "pagestart m = pagestart m0"
      by blast
    from frames_inv_conserved [OF i] p r show ?thesis by auto
  qed
  with init show ?thesis by blast
qed

lemma init_32_pages: "MemoryModuleInit boot_kmem 0x20000 0x5000 = Inr init32"
  by code_simp

lemma alloc_init32:
  "MemoryAllocPage dlx init32
     = Some (Inr (6, init32\<lparr>freemap := 0xFFFFFF80 # replicate 15 0, nfreepages := 25\<rparr>))"
proof -
  have s: "alloc_scan (freemap init32) 1 0 = Some (Inr 0)"
    by (subst alloc_scan.simps) (simp add: init32_def)
  have b: "bit_scan 0xFFFFFFC0 0 = Some (Inr 6)"
    apply (subst bit_scan.simps, simp)
    apply (subst bit_scan.simps, simp)
    apply (subst bit_scan.simps, simp)
    apply (subst bit_scan.simps, simp)
    apply (subst bit_scan.simps, simp)
    apply (subst bit_scan.simps, simp)
    apply (subst bit_scan.simps, simp)
    done
  have i: "(0xFFFFFFC0 :: uint32) AND invert 64 = 0xFFFFFF80"
    by (simp add: invert_def negativeone_def)
  show ?thesis
    using s b by (simp add: MemoryAllocPage_def init32_def i)
qed

lemma free_init32:
  "MemoryFreePage (init32\<lparr>freemap := 0xFFFFFF80 # replicate 15 0, nfreepages := 25\<rparr>) 6 = Inr init32"
  by code_simp

lemma run_init32: "run_calls dlx init32 {} [Alloc, Free 6, Alloc] \<noteq> Misuse"
proof -
  have n: "nfreepages init32 \<noteq> 0" by (simp add: init32_def)
  show ?thesis
    by (simp add: alloc_init32 free_init32 n split: option.splits sum.splits)
qed

theorem frame_conservation_witness:
  "(0::int) \<le> 0x20000 \<and> (0x20000::int) \<le> 0x200000
   \<and> MemoryModuleInit boot_kmem 0x20000 0x5000 = Inr init32
   \<and> run_calls dlx init32 {} [Alloc, Free 6, Alloc] \<noteq> Misuse
   \<and> (3::nat) \<le> length [Alloc, Free 6, Alloc]
   \<and> (\<exists>m. run_calls dlx init32 {} (take 3 [Alloc, Free 6, Alloc]) = Finished m
          \<and> conserved m (pagestart init32) (0x20000 sdiv int MEM_PAGESIZE))"
proof -
  have a: "(0::int) \<le> 0x20000" and b: "(0x20000::int) \<le> 0x200000" by simp_all
  from frame_conservation [OF a b, of "0x5000" dlx] init_32_pages
  have "\<forall>cs k. run_calls dlx init32 {} cs \<noteq> Misuse \<longrightarrow> k \<le> length cs \<longrightarrow>
           (\<exists>m. run_calls dlx init32 {} (take k cs) = Finished m
              \<and> conserved m (pagestart init32) (0x20000 sdiv int MEM_PAGESIZE))"
    by auto
  then have "\<exists>m. run_calls dlx init32 {} (take 3 [Alloc, Free 6, Alloc]) = Finished m
              \<and> conserved m (pagestart init32) (0x20000 sdiv int MEM_PAGESIZE)"
    using run_init32 by (metis length_Cons list.size(3) numeral_3_eq_3 order_refl)
  with init_32_pages run_init32 show ?thesis by simp
qed

end
